theory Spec2Isabelle
  imports Main "HOL-Library.Word" "HOL-Library.Multiset" "HOL-Library.Product_Lexorder"
begin

unbundle bit_operations_syntax

section \<open>The bitwise poker-hand evaluator\<close>

text \<open>
  A shallow embedding of the evaluator: hand notation is parsed into a list of ranks and a
  list of suits, the ranks are packed into a 16-bit rank mask and into a wide accumulator
  with one nibble per rank, the hand is classified from both, and two hands are compared.

  JavaScript values are modelled as follows.
  \<^item> An array element or table entry that may be \<open>undefined\<close> is an \<open>option\<close>, with
    \<open>None\<close> for \<open>undefined\<close>; reading past the end of an array gives \<open>None\<close>.
  \<^item> The operands of \<open>|\<close>, \<open>&\<close> and \<open><<\<close> are converted to 32-bit integers: these
    operations are computed on \<open>32 word\<close> and read back with \<open>sint\<close>.
  \<^item> The accumulator is a double. It is modelled as \<open>int option\<close>, \<open>None\<close> being NaN;
    the integers are exact as long as the value is a multiple of \<open>2^8\<close> below \<open>2^60\<close>,
    which is what every hand of at most five cards of the rank table produces. The
    accumulator is never negative, so \<open>%\<close> is \<open>mod\<close> and truncation is \<open>div\<close>.
\<close>

subsection \<open>Data\<close>

datatype HandRank =
  highCard | pair | twoPair | trips | straight | flush | fullHouse | quads
  | straightFlush | royalFlush

fun HandRank_value :: "HandRank \<Rightarrow> int" where
  "HandRank_value highCard = 0"
| "HandRank_value pair = 1"
| "HandRank_value twoPair = 2"
| "HandRank_value trips = 3"
| "HandRank_value straight = 4"
| "HandRank_value flush = 5"
| "HandRank_value fullHouse = 6"
| "HandRank_value quads = 7"
| "HandRank_value straightFlush = 8"
| "HandRank_value royalFlush = 9"

record HandAnalysis =
  handRank :: HandRank
  english :: string
  btRanks :: int
  btCount :: int

datatype error = TypeError

definition Rank :: "string \<Rightarrow> nat option" where
  "Rank = map_of
     [(''A'', 14), (''K'', 13), (''Q'', 12), (''J'', 11), (''T'', 10), (''9'', 9),
      (''8'', 8), (''7'', 7), (''6'', 6), (''5'', 5), (''4'', 4), (''3'', 3), (''2'', 2)]"

definition Suit :: "string \<Rightarrow> nat option" where
  "Suit = map_of [(''s'', 1), (''c'', 2), (''h'', 4), (''d'', 8)]"

definition WHEEL_HASH :: int where
  "WHEEL_HASH = 0x403c"

definition BROADWAY_HASH :: int where
  "BROADWAY_HASH = 0x7c00"

subsection \<open>Strings\<close>

text \<open>\<open>s.charAt(i)\<close>: the one-character string at index \<open>i\<close>, the empty string out of range.\<close>

definition charAt :: "string \<Rightarrow> nat \<Rightarrow> string" where
  "charAt s i = (if i < length s then [s ! i] else [])"

text \<open>\<open>toLowerCase\<close> on the ASCII letters.\<close>

definition toLowerCase :: "string \<Rightarrow> string" where
  "toLowerCase s =
     map (\<lambda>c. if 65 \<le> (of_char c :: nat) \<and> (of_char c :: nat) \<le> 90
              then char_of (of_char c + 32 :: nat) else c) s"

definition isSpace :: "char \<Rightarrow> bool" where
  "isSpace c = ((of_char c :: nat) \<in> {9, 10, 11, 12, 13, 32})"

definition trim :: "string \<Rightarrow> string" where
  "trim s = rev (dropWhile isSpace (rev (dropWhile isSpace s)))"

text \<open>\<open>s.split(" ")\<close>: the pieces between single spaces; the empty string gives one empty piece.\<close>

fun split_space :: "string \<Rightarrow> string list" where
  "split_space [] = [[]]"
| "split_space (c # cs) =
     (if c = CHR '' '' then [] # split_space cs
      else (case split_space cs of
              [] \<Rightarrow> [[c]]
            | w # ws \<Rightarrow> (c # w) # ws))"

text \<open>\<open>x.toString(2)\<close> for an integer: binary digits, most significant first.\<close>

function toString2 :: "int \<Rightarrow> string" where
  "toString2 n =
     (if n < 0 then CHR ''-'' # toString2 (- n)
      else if n < 2 then [if n = 0 then CHR ''0'' else CHR ''1'']
      else toString2 (n div 2) @ [if n mod 2 = 0 then CHR ''0'' else CHR ''1''])"
  by pat_completeness auto
termination
  by (relation "measure (\<lambda>n. if n < 0 then nat (1 - n) else nat n)") auto

declare toString2.simps [simp del]

definition padStart :: "nat \<Rightarrow> char \<Rightarrow> string \<Rightarrow> string" where
  "padStart n c s = replicate (n - length s) c @ s"

text \<open>
  \<open>replace(/(\d{4})/g, "$1 ")\<close>: scanning from the left, a space is put after every
  run of four digits; a character that does not start such a run is kept as it is.
\<close>

definition isDigit :: "char \<Rightarrow> bool" where
  "isDigit c = (48 \<le> (of_char c :: nat) \<and> (of_char c :: nat) \<le> 57)"

fun group4 :: "string \<Rightarrow> string" where
  "group4 (a # b # c # d # rest) =
     (if isDigit a \<and> isDigit b \<and> isDigit c \<and> isDigit d
      then a # b # c # d # CHR '' '' # group4 rest
      else a # group4 (b # c # d # rest))"
| "group4 s = s"

text \<open>
  \<open>replace(/(^\s+|\s+$)/, "")\<close> removes the first match only: the leading white space if
  there is any, otherwise the trailing white space.
\<close>

definition strip_once :: "string \<Rightarrow> string" where
  "strip_once s =
     (case s of
        [] \<Rightarrow> []
      | c # cs \<Rightarrow> if isSpace c then dropWhile isSpace s
                 else rev (dropWhile isSpace (rev s)))"

definition displayBits :: "nat \<Rightarrow> int \<Rightarrow> string" where
  "displayBits bits x = strip_once (group4 (padStart bits (CHR ''0'') (toString2 x)))"

definition displayIntAs16Bit :: "int \<Rightarrow> string" where
  "displayIntAs16Bit = displayBits 16"

definition displayFloatAs64Bit :: "int \<Rightarrow> string" where
  "displayFloatAs64Bit = displayBits 64"

subsection \<open>Parsing\<close>

definition parseHandFromString :: "string \<Rightarrow> nat option list \<times> nat option list" where
  "parseHandFromString handNotation =
     (let cards = split_space (trim handNotation);
          ranks = map (\<lambda>c. Rank (charAt c 0)) cards;
          suits = map (\<lambda>c. Suit (toLowerCase (charAt c 1))) cards
      in (ranks, suits))"

subsection \<open>The two encodings\<close>

text \<open>\<open>xs[i]\<close>: \<open>undefined\<close> past the end.\<close>

definition at_index :: "'a option list \<Rightarrow> nat \<Rightarrow> 'a option" where
  "at_index xs i = (if i < length xs then xs ! i else None)"

text \<open>\<open>ToInt32\<close> of an array element: \<open>undefined\<close> becomes 0.\<close>

definition toInt32 :: "nat option \<Rightarrow> 32 word" where
  "toInt32 v = (case v of None \<Rightarrow> 0 | Some n \<Rightarrow> word_of_nat n)"

text \<open>\<open>1 << r\<close>: the shift count is taken modulo 32.\<close>

definition shl1 :: "nat option \<Rightarrow> 32 word" where
  "shl1 r = push_bit (unat (toInt32 r AND 31)) 1"

definition countRanksBitwise :: "nat option list \<Rightarrow> int" where
  "countRanksBitwise handRanks =
     sint (foldl (\<lambda>bitValue card. bitValue OR shl1 (at_index handRanks card)) 0 [0..<5])"

text \<open>\<open>Math.pow(2, r * 4)\<close>: NaN when \<open>r\<close> is \<open>undefined\<close>.\<close>

definition pow2x4 :: "nat option \<Rightarrow> int option" where
  "pow2x4 r = map_option (\<lambda>n. 2 ^ (n * 4)) r"

text \<open>
  The loop body \<open>value += offset * (((value / offset) & 15) + 1)\<close>. The quotient is NaN in
  the first round (\<open>0 / 0\<close>), which \<open>&\<close> converts to 0; afterwards \<open>offset\<close> is a power of
  two, the division is exact and \<open>&\<close> truncates it to its integer part.
\<close>

definition cdb_body :: "int option \<Rightarrow> int option \<Rightarrow> int option" where
  "cdb_body offset val =
     (case (offset, val) of
        (Some off, Some v) \<Rightarrow>
          Some (v + off * (sint ((if off = 0 then 0 else word_of_int (v div off) :: 32 word) AND 15) + 1))
      | _ \<Rightarrow> None)"

text \<open>
  The loop runs its body once with \<open>offset = 0\<close> (for \<open>i = -1\<close>) and then once for every
  card, the offset being set from the card in the update clause of the \<open>for\<close>.
\<close>

fun cdb_loop :: "nat option list \<Rightarrow> int option \<Rightarrow> int option \<Rightarrow> int option" where
  "cdb_loop [] offset val = cdb_body offset val"
| "cdb_loop (r # rs) offset val = cdb_loop rs (pow2x4 r) (cdb_body offset val)"

definition countDuplicatesBitwise :: "nat option list \<Rightarrow> int option" where
  "countDuplicatesBitwise handRanks = cdb_loop handRanks (Some 0) (Some 0)"

subsection \<open>Classification\<close>

datatype hash_key = KeyRF | KeySF | KeyF | KeyS | KeyHC | KeyNum int

fun POKER_HASH :: "hash_key \<Rightarrow> (string \<times> HandRank) option" where
  "POKER_HASH KeyRF = Some (''Royal Flush'', royalFlush)"
| "POKER_HASH KeySF = Some (''Straight Flush'', straightFlush)"
| "POKER_HASH KeyF = Some (''Flush'', flush)"
| "POKER_HASH KeyS = Some (''Straight'', straight)"
| "POKER_HASH KeyHC = Some (''High Card'', highCard)"
| "POKER_HASH (KeyNum n) =
     (if n = 1 then Some (''Four of a Kind'', quads)
      else if n = 10 then Some (''Full House'', fullHouse)
      else if n = 9 then Some (''Three of a Kind'', trips)
      else if n = 7 then Some (''Two Pair'', twoPair)
      else if n = 6 then Some (''Pair'', pair)
      else None)"

definition mkAnalysis :: "hash_key \<Rightarrow> int \<Rightarrow> int \<Rightarrow> error + HandAnalysis" where
  "mkAnalysis key ranksBits cnt =
     (case POKER_HASH key of
        None \<Rightarrow> Inl TypeError
      | Some (name, hr) \<Rightarrow>
          Inr \<lparr>handRank = hr, english = name, btRanks = ranksBits, btCount = cnt\<rparr>)"

text \<open>
  \<open>btRanks / (btRanks & -btRanks) == 31\<close>: both operands are 32-bit integers, so the
  quotient is 31 exactly when the divisor is not 0 and the dividend is 31 times the divisor.
\<close>

definition lowestBit :: "int \<Rightarrow> int" where
  "lowestBit x = sint ((word_of_int x :: 32 word) AND word_of_int (- x))"

definition isStraight :: "int \<Rightarrow> bool" where
  "isStraight x = ((lowestBit x \<noteq> 0 \<and> x = 31 * lowestBit x) \<or> x = WHEEL_HASH)"

text \<open>\<open>suits[0] === (suits[1] | suits[2] | suits[3] | suits[4])\<close>\<close>

definition isFlush :: "nat option list \<Rightarrow> bool" where
  "isFlush suits =
     (case at_index suits 0 of
        None \<Rightarrow> False
      | Some s0 \<Rightarrow>
          int s0 = sint (toInt32 (at_index suits 1) OR toInt32 (at_index suits 2)
                         OR toInt32 (at_index suits 3) OR toInt32 (at_index suits 4)))"

definition rankPokerHand :: "nat option list \<Rightarrow> nat option list \<Rightarrow> error + HandAnalysis" where
  "rankPokerHand ranks suits =
     (let ranksBits = countRanksBitwise ranks in
      case map_option (\<lambda>v. v mod 15) (countDuplicatesBitwise ranks) of
        None \<Rightarrow> Inl TypeError
      | Some cnt \<Rightarrow>
          if cnt \<noteq> 5 then mkAnalysis (KeyNum cnt) ranksBits cnt
          else if isFlush suits \<and> ranksBits = BROADWAY_HASH then mkAnalysis KeyRF ranksBits cnt
          else if isStraight ranksBits \<and> isFlush suits then mkAnalysis KeySF ranksBits cnt
          else if isFlush suits then mkAnalysis KeyF ranksBits cnt
          else if isStraight ranksBits then mkAnalysis KeyS ranksBits cnt
          else mkAnalysis KeyHC ranksBits cnt)"

subsection \<open>The category analyzers\<close>

text \<open>
  Each analyzer scans the printed accumulator in steps of five characters. \<open>position\<close> is
  always a multiple of 5, so \<open>position / 5\<close> is an integer.
\<close>

function analyzeQuads_loop :: "string \<Rightarrow> int \<Rightarrow> int \<Rightarrow> nat \<Rightarrow> int list" where
  "analyzeQuads_loop stringRep qs kicker position =
     (if (qs = 0 \<or> kicker = 0) \<and> position < length stringRep then
        (if charAt stringRep (position + 5) = ''1''
         then analyzeQuads_loop stringRep (14 - int ((position + 5) div 5)) kicker (position + 5)
         else if charAt stringRep (position + 5 + 3) = ''1''
         then analyzeQuads_loop stringRep qs (14 - int ((position + 5) div 5)) (position + 5)
         else analyzeQuads_loop stringRep qs kicker (position + 5))
      else [qs, kicker])"
  by pat_completeness auto
termination
  by (relation "measure (\<lambda>(s, q, k, p). length s - p)") auto

declare analyzeQuads_loop.simps [simp del]

definition analyzeQuads :: "int \<Rightarrow> int list" where
  "analyzeQuads cnt = analyzeQuads_loop (displayFloatAs64Bit cnt) 0 0 0"

function analyzeBoat_loop :: "string \<Rightarrow> int \<Rightarrow> int \<Rightarrow> nat \<Rightarrow> int list" where
  "analyzeBoat_loop stringRep ts pr position =
     (if (ts = 0 \<or> pr = 0) \<and> position < length stringRep then
        (if charAt stringRep (position + 5 + 1) = ''1''
         then analyzeBoat_loop stringRep (14 - int ((position + 5) div 5)) pr (position + 5)
         else if charAt stringRep (position + 5 + 2) = ''1''
         then analyzeBoat_loop stringRep ts (14 - int ((position + 5) div 5)) (position + 5)
         else analyzeBoat_loop stringRep ts pr (position + 5))
      else [ts, pr])"
  by pat_completeness auto
termination
  by (relation "measure (\<lambda>(s, t, p, pos). length s - pos)") auto

declare analyzeBoat_loop.simps [simp del]

definition analyzeBoat :: "int \<Rightarrow> int list" where
  "analyzeBoat cnt = analyzeBoat_loop (displayFloatAs64Bit cnt) 0 0 0"

function analyzeTrips_loop :: "string \<Rightarrow> int \<Rightarrow> int list \<Rightarrow> nat \<Rightarrow> int list" where
  "analyzeTrips_loop stringRep ts kickers position =
     (if (ts = 0 \<or> length kickers < 2) \<and> position < length stringRep then
        (if charAt stringRep (position + 5 + 1) = ''1''
         then analyzeTrips_loop stringRep (14 - int ((position + 5) div 5)) kickers (position + 5)
         else if charAt stringRep (position + 5 + 3) = ''1''
         then analyzeTrips_loop stringRep ts (kickers @ [14 - int ((position + 5) div 5)]) (position + 5)
         else analyzeTrips_loop stringRep ts kickers (position + 5))
      else ts # kickers)"
  by pat_completeness auto
termination
  by (relation "measure (\<lambda>(s, t, ks, pos). length s - pos)") auto

declare analyzeTrips_loop.simps [simp del]

definition analyzeTrips :: "int \<Rightarrow> int list" where
  "analyzeTrips cnt = analyzeTrips_loop (displayFloatAs64Bit cnt) 0 [] 0"

function analyzeTwoPair_loop :: "string \<Rightarrow> int list \<Rightarrow> int \<Rightarrow> nat \<Rightarrow> int list" where
  "analyzeTwoPair_loop stringRep pairs kicker position =
     (if length pairs < 2 \<and> kicker = 0 \<and> position < length stringRep then
        (if charAt stringRep (position + 5 + 2) = ''1''
         then analyzeTwoPair_loop stringRep (pairs @ [14 - int ((position + 5) div 5)]) kicker (position + 5)
         else if charAt stringRep (position + 5 + 3) = ''1''
         then analyzeTwoPair_loop stringRep pairs (14 - int ((position + 5) div 5)) (position + 5)
         else analyzeTwoPair_loop stringRep pairs kicker (position + 5))
      else pairs @ [kicker])"
  by pat_completeness auto
termination
  by (relation "measure (\<lambda>(s, ps, k, pos). length s - pos)") auto

declare analyzeTwoPair_loop.simps [simp del]

definition analyzeTwoPair :: "int \<Rightarrow> int list" where
  "analyzeTwoPair cnt = analyzeTwoPair_loop (displayFloatAs64Bit cnt) [] 0 0"

function analyzePair_loop :: "string \<Rightarrow> int \<Rightarrow> int list \<Rightarrow> nat \<Rightarrow> int list" where
  "analyzePair_loop stringRep pr kickers position =
     (if (pr = 0 \<or> length kickers < 3) \<and> position < length stringRep then
        (if charAt stringRep (position + 5 + 2) = ''1''
         then analyzePair_loop stringRep (14 - int ((position + 5) div 5)) kickers (position + 5)
         else if charAt stringRep (position + 5 + 3) = ''1''
         then analyzePair_loop stringRep pr (kickers @ [14 - int ((position + 5) div 5)]) (position + 5)
         else analyzePair_loop stringRep pr kickers (position + 5))
      else pr # kickers)"
  by pat_completeness auto
termination
  by (relation "measure (\<lambda>(s, p, ks, pos). length s - pos)") auto

declare analyzePair_loop.simps [simp del]

definition analyzePair :: "int \<Rightarrow> int list" where
  "analyzePair cnt = analyzePair_loop (displayFloatAs64Bit cnt) 0 [] 0"

text \<open>The table of analyzers has no entry for the categories without duplicates.\<close>

fun analyzers :: "HandRank \<Rightarrow> (int \<Rightarrow> int list) option" where
  "analyzers quads = Some analyzeQuads"
| "analyzers fullHouse = Some analyzeBoat"
| "analyzers trips = Some analyzeTrips"
| "analyzers twoPair = Some analyzeTwoPair"
| "analyzers pair = Some analyzePair"
| "analyzers _ = None"

text \<open>The fold \<open>count += analysis[factor] * 16 * (l - factor)\<close> over the positions.\<close>

definition foldAnalysis :: "int list \<Rightarrow> int" where
  "foldAnalysis analysis =
     (let l = length analysis
      in foldl (\<lambda>count factor. count + analysis ! factor * 16 * (int l - int factor)) 0 [0..<l])"

definition analysisToInt :: "HandRank \<Rightarrow> int \<Rightarrow> error + int" where
  "analysisToInt hr bitCount =
     (case analyzers hr of
        None \<Rightarrow> Inl TypeError
      | Some analyzer \<Rightarrow> Inr (foldAnalysis (analyzer bitCount)))"

subsection \<open>Comparison\<close>

definition compareAnalyses :: "HandAnalysis \<Rightarrow> HandAnalysis \<Rightarrow> error + int" where
  "compareAnalyses a b =
     (if handRank a \<noteq> handRank b then Inr (HandRank_value (handRank a) - HandRank_value (handRank b))
      else if handRank a = royalFlush then Inr 0
      else if handRank a = flush \<or> handRank a = highCard then Inr (btRanks a - btRanks b)
      else if handRank a = straightFlush \<or> handRank a = straight then
        (if btRanks a = WHEEL_HASH \<and> btRanks b = WHEEL_HASH then Inr 0
         else if btRanks a = WHEEL_HASH then Inr (- 1)
         else if btRanks b = WHEEL_HASH then Inr 1
         else Inr (btRanks a - btRanks b))
      else
        (case analysisToInt (handRank a) (btCount a) of
           Inl e \<Rightarrow> Inl e
         | Inr hexA \<Rightarrow>
             (case analysisToInt (handRank b) (btCount b) of
                Inl e \<Rightarrow> Inl e
              | Inr hexB \<Rightarrow> Inr (hexA - hexB))))"

definition compareHands :: "string \<Rightarrow> string \<Rightarrow> error + int" where
  "compareHands handA handB =
     (let (aRanks, aSuits) = parseHandFromString handA;
          (bRanks, bSuits) = parseHandFromString handB
      in case rankPokerHand aRanks aSuits of
           Inl e \<Rightarrow> Inl e
         | Inr a \<Rightarrow>
             (case rankPokerHand bRanks bSuits of
                Inl e \<Rightarrow> Inl e
              | Inr b \<Rightarrow> compareAnalyses a b))"

subsection \<open>Hands\<close>

text \<open>
  A hand is a list of cards, each a rank and a suit code. A valid hand has five different
  cards with ranks from 2 to 14 and suit codes among 1, 2, 4 and 8. The evaluator receives
  the ranks and the suits as two arrays, none of whose elements is \<open>undefined\<close>.
\<close>

type_synonym card = "nat \<times> nat"

definition validCard :: "card \<Rightarrow> bool" where
  "validCard c = (2 \<le> fst c \<and> fst c \<le> 14 \<and> snd c \<in> {1, 2, 4, 8})"

definition validHand :: "card list \<Rightarrow> bool" where
  "validHand cs = (length cs = 5 \<and> distinct cs \<and> list_all validCard cs)"

definition ranksOf :: "card list \<Rightarrow> nat option list" where
  "ranksOf cs = map (\<lambda>c. Some (fst c)) cs"

definition suitsOf :: "card list \<Rightarrow> nat option list" where
  "suitsOf cs = map (\<lambda>c. Some (snd c)) cs"

text \<open>The multiplicities of the ranks of a hand, in ascending order.\<close>

definition multiplicities :: "nat list \<Rightarrow> nat list" where
  "multiplicities rs = sort (map (count_list rs) (remdups rs))"

subsection \<open>The accumulator, arithmetically\<close>

text \<open>
  One round of the accumulator loop on integers, the nibble that the loop leaves for a rank
  and the value of an accumulator with these nibbles.
\<close>

definition bump :: "int \<Rightarrow> nat \<Rightarrow> int" where
  "bump v r = v + 16 ^ r * ((v div 16 ^ r) mod 16 + 1)"

definition nibbles :: "nat list \<Rightarrow> nat \<Rightarrow> int" where
  "nibbles rs r = 2 ^ count_list rs r - 1"

definition accOf :: "nat list \<Rightarrow> int" where
  "accOf rs = (\<Sum>r<15. nibbles rs r * 16 ^ r)"

subsection \<open>Rank sets and suits\<close>

text \<open>
  The rank mask of a list of ranks on unbounded integers, the ranks of the ace-low
  straight, and hands whose cards all have one suit.
\<close>

definition rankMask :: "nat list \<Rightarrow> int" where
  "rankMask rs = foldr (\<lambda>r m. 2 ^ r OR m) rs 0"

definition wheelRanks :: "nat list \<Rightarrow> bool" where
  "wheelRanks rs = (set rs = {2, 3, 4, 5, 14})"

definition sameSuit :: "card list \<Rightarrow> bool" where
  "sameSuit cs = (\<forall>c\<in>set cs. \<forall>c'\<in>set cs. snd c = snd c')"

subsection \<open>The strength of a hand\<close>

text \<open>
  The reference against which the comparison is checked. These definitions do not
  translate code: they state the rules of poker. The category of a hand comes from the
  multiplicities of its ranks, its suits and whether its ranks are five in a row (the ace
  also counting low, in the wheel). Within a category the ranks are taken in decreasing
  order of multiplicity and then of rank, the ace of a wheel counting as 1, and compared
  lexicographically. A hand is stronger than another when its category is higher, or the
  categories are equal and its ranks in this order are greater.
\<close>

definition consecutiveRanks :: "nat list \<Rightarrow> bool" where
  "consecutiveRanks rs = (set rs = {Min (set rs)..Min (set rs) + 4})"

definition straightRanks :: "nat list \<Rightarrow> bool" where
  "straightRanks rs = (consecutiveRanks rs \<or> wheelRanks rs)"

definition category :: "card list \<Rightarrow> HandRank" where
  "category cs =
     (let rs = map fst cs; ms = multiplicities rs
      in if ms = [1, 4] then quads
         else if ms = [2, 3] then fullHouse
         else if ms = [1, 1, 3] then trips
         else if ms = [1, 2, 2] then twoPair
         else if ms = [1, 1, 1, 2] then pair
         else if sameSuit cs \<and> set rs = {10, 11, 12, 13, 14} then royalFlush
         else if sameSuit cs \<and> straightRanks rs then straightFlush
         else if sameSuit cs then flush
         else if straightRanks rs then straight
         else highCard)"

definition playRanks :: "nat list \<Rightarrow> nat list" where
  "playRanks rs = (if wheelRanks rs then map (\<lambda>r. if r = 14 then 1 else r) rs else rs)"

definition tieBreak :: "card list \<Rightarrow> nat list" where
  "tieBreak cs =
     (let rs = playRanks (map fst cs)
      in map snd (rev (sort (map (\<lambda>r. (count_list rs r, r)) rs))))"

fun lexLess :: "nat list \<Rightarrow> nat list \<Rightarrow> bool" where
  "lexLess (x # xs) (y # ys) = (x < y \<or> (x = y \<and> lexLess xs ys))"
| "lexLess [] (y # ys) = True"
| "lexLess xs [] = False"

definition stronger :: "card list \<Rightarrow> card list \<Rightarrow> bool" where
  "stronger csA csB =
     (HandRank_value (category csB) < HandRank_value (category csA)
      \<or> (category csA = category csB \<and> lexLess (tieBreak csB) (tieBreak csA)))"

subsection \<open>Classifying a hand given in notation\<close>

text \<open>\<open>rankPokerHand(...parseHandFromString(h))\<close>, as the tests of the repository call it.\<close>

definition rankHand :: "string \<Rightarrow> error + HandAnalysis" where
  "rankHand h = (case parseHandFromString h of (ranks, suits) \<Rightarrow> rankPokerHand ranks suits)"

section \<open>The analyzers and the fold on concrete hands\<close>

text \<open>
  C4. The quads analyzer is meant to return the rank of the quads and the rank of the
  kicker. On the accumulator of four jacks and a deuce it returns 10 and 1: every rank it
  reports is one less than the rank of the cards, because the nibble of rank \<open>r\<close> is
  printed at position \<open>5 * (15 - r)\<close> and the analyzer computes \<open>14 - position / 5\<close>.
\<close>

theorem C4_analyzeQuads_jacks_deuce:
  "map_option analyzeQuads (countDuplicatesBitwise (map Some [11, 11, 11, 11, 2])) = Some [10, 1]"
  by code_simp

text \<open>
  C3. The two-pair analyzer is meant to return the higher pair, the lower pair and the
  kicker. Its loop stops as soon as the kicker or the second pair is found: on eights and
  nines with a jack it returns the one-element list of the kicker (less one), and on
  eights and nines with a deuce it returns the two pairs (less one) and 0 for the kicker.
\<close>

theorem C3_analyzeTwoPair_stops_early:
  "map_option analyzeTwoPair (countDuplicatesBitwise (map Some [8, 8, 11, 9, 9])) = Some [10]
   \<and> map_option analyzeTwoPair (countDuplicatesBitwise (map Some [8, 8, 2, 9, 9])) = Some [8, 7, 0]"
  by code_simp

text \<open>
  C2. The fold weights position \<open>i\<close> of a list of length \<open>l\<close> by \<open>16 * (l - i)\<close>, which
  does not make an earlier position dominate the later ones. For four threes with an ace
  and four fours with a deuce the analyzer extracts \<open>[2, 13]\<close> and \<open>[3, 1]\<close>; the second
  list is the greater one at the first position, and its score is the smaller one.
\<close>

theorem C2_fold_not_lexicographic:
  "map_option analyzeQuads (countDuplicatesBitwise (map Some [3, 3, 3, 3, 14])) = Some [2, 13]
   \<and> map_option analyzeQuads (countDuplicatesBitwise (map Some [4, 4, 4, 4, 2])) = Some [3, 1]
   \<and> map_option (analysisToInt quads) (countDuplicatesBitwise (map Some [3, 3, 3, 3, 14])) = Some (Inr 272)
   \<and> map_option (analysisToInt quads) (countDuplicatesBitwise (map Some [4, 4, 4, 4, 2])) = Some (Inr 112)"
  by code_simp

section \<open>The multiplicity accumulator\<close>

subsection \<open>The loop as a fold\<close>

lemma sint_and_15: "sint ((word_of_int x :: 32 word) AND 15) = x mod 16"
proof -
  have "(15 :: 32 word) = mask 4" by (simp add: mask_eq_exp_minus_1)
  then have a: "(word_of_int x :: 32 word) AND 15 = take_bit 4 (word_of_int x)"
    by (simp add: take_bit_eq_mask)
  have "uint (take_bit 4 (word_of_int x :: 32 word)) = take_bit 4 (uint (word_of_int x :: 32 word))"
    by (rule unsigned_take_bit_eq)
  also have "\<dots> = take_bit 4 (take_bit 32 x)"
    by (simp add: uint_word_of_int_eq)
  also have "\<dots> = take_bit 4 x"
    by simp
  also have "\<dots> = x mod 16"
    by (simp add: take_bit_eq_mod)
  finally have u: "uint (take_bit 4 (word_of_int x :: 32 word)) = x mod 16" .
  have "sint (take_bit 4 (word_of_int x :: 32 word)) = signed_take_bit 31 (x mod 16)"
    using u by (simp add: sint_uint)
  also have "\<dots> = x mod 16"
  proof (rule signed_take_bit_int_eq_self)
    have "0 \<le> x mod 16" "x mod 16 < 16" by simp_all
    then show "- (2 ^ 31) \<le> x mod 16" "x mod 16 < 2 ^ 31" by simp_all
  qed
  finally show ?thesis using a by simp
qed

lemma pow2x4_16: "(2::int) ^ (r * 4) = 16 ^ r"
  by (simp add: mult.commute [of r 4] power_mult)

lemma cdb_body_pow: "cdb_body (pow2x4 (Some r)) (Some v) = Some (bump v r)"
  by (simp add: cdb_body_def pow2x4_def bump_def sint_and_15 pow2x4_16)

lemma cdb_loop_bump:
  "cdb_loop (map Some rs) (pow2x4 (Some r)) (Some v) = Some (foldl bump v (r # rs))"
  by (induction rs arbitrary: r v) (simp_all add: cdb_body_pow)

lemma cdb_body_zero: "cdb_body (Some 0) (Some 0) = Some 0"
  by (simp add: cdb_body_def)

lemma cdb_foldl: "countDuplicatesBitwise (map Some rs) = Some (foldl bump 0 rs)"
  by (cases rs) (simp_all add: countDuplicatesBitwise_def cdb_body_zero cdb_loop_bump)

lemma digits_bound:
  fixes d :: "nat \<Rightarrow> int"
  assumes "\<And>r. 0 \<le> d r \<and> d r < 16"
  shows "0 \<le> (\<Sum>r<n. d r * 16 ^ r) \<and> (\<Sum>r<n. d r * 16 ^ r) < 16 ^ n"
proof (induction n)
  case 0
  show ?case by simp
next
  case (Suc n)
  let ?S = "\<Sum>r<n. d r * 16 ^ r"
  let ?p = "(16::int) ^ n"
  have a: "d n * ?p \<le> 15 * ?p"
    using assms [of n] by (intro mult_right_mono) simp_all
  have b: "0 \<le> d n * ?p"
    using assms [of n] by simp
  have "0 \<le> ?S + d n * ?p" using Suc b by linarith
  moreover have "?S + d n * ?p < 16 * ?p" using Suc a by linarith
  ultimately show ?case by simp
qed

lemma digit_top:
  fixes d :: "nat \<Rightarrow> int"
  assumes "\<And>r. 0 \<le> d r \<and> d r < 16"
  shows "(\<Sum>r<Suc n. d r * 16 ^ r) div 16 ^ n mod 16 = d n"
proof -
  let ?S = "\<Sum>r<n. d r * 16 ^ r"
  have b: "0 \<le> ?S \<and> ?S < 16 ^ n" using digits_bound [OF assms(1)] .
  have "?S div 16 ^ n = 0"
    using b by (simp add: div_pos_pos_trivial)
  then have "(?S + d n * 16 ^ n) div 16 ^ n = d n"
    by simp
  moreover have "d n mod 16 = d n"
    using assms(1) [of n] by simp
  ultimately show ?thesis by simp
qed

lemma shift_digit:
  fixes S :: int
  shows "(S + e * 16 ^ (x + Suc k)) div 16 ^ x mod 16 = S div 16 ^ x mod 16"
proof -
  have "e * 16 ^ (x + Suc k) = (e * 16 ^ k * 16) * 16 ^ x"
    by (simp add: power_add)
  then have "(S + e * 16 ^ (x + Suc k)) div 16 ^ x = (S + (e * 16 ^ k * 16) * 16 ^ x) div 16 ^ x"
    by (simp only:)
  also have "\<dots> = e * 16 ^ k * 16 + S div 16 ^ x"
    by (rule div_mult_self1) simp
  finally have "(S + e * 16 ^ (x + Suc k)) div 16 ^ x mod 16 = (S div 16 ^ x + e * 16 ^ k * 16) mod 16"
    by (simp only: add.commute)
  also have "\<dots> = S div 16 ^ x mod 16"
    by (rule mod_mult_self1)
  finally show ?thesis .
qed

lemma digit_extract:
  fixes d :: "nat \<Rightarrow> int"
  assumes "\<And>r. 0 \<le> d r \<and> d r < 16" and "x < n"
  shows "(\<Sum>r<n. d r * 16 ^ r) div 16 ^ x mod 16 = d x"
  using assms(2)
proof (induction n)
  case 0
  then show ?case by simp
next
  case (Suc n)
  show ?case
  proof (cases "x = n")
    case True
    show ?thesis unfolding True by (rule digit_top [OF assms(1)])
  next
    case False
    then have lt: "x < n" using Suc.prems by simp
    define k where "k = n - Suc x"
    have k: "n = x + Suc k" using lt by (simp add: k_def)
    have e: "(\<Sum>r<Suc n. d r * 16 ^ r) = (\<Sum>r<n. d r * 16 ^ r) + d n * 16 ^ (x + Suc k)"
      unfolding k [symmetric] by (rule sum.lessThan_Suc)
    show ?thesis
      unfolding e shift_digit by (rule Suc.IH [OF lt])
  qed
qed

lemma nibbles_range: "count_list rs r \<le> 4 \<Longrightarrow> 0 \<le> nibbles rs r \<and> nibbles rs r < 16"
proof -
  assume "count_list rs r \<le> 4"
  then have "(2::int) ^ count_list rs r \<le> 2 ^ 4"
    by (intro power_increasing) simp_all
  then show ?thesis by (simp add: nibbles_def)
qed

lemma nibbles_snoc:
  "nibbles (rs @ [x]) r = nibbles rs r + (if r = x then 2 ^ count_list rs x else 0)"
  by (simp add: nibbles_def)

lemma accOf_snoc:
  assumes "x < 15"
  shows "accOf (rs @ [x]) = accOf rs + 16 ^ x * 2 ^ count_list rs x"
proof -
  have "accOf (rs @ [x]) = (\<Sum>r<15. nibbles rs r * 16 ^ r + (if r = x then 2 ^ count_list rs x * 16 ^ r else 0))"
    unfolding accOf_def by (intro sum.cong refl) (simp add: nibbles_snoc algebra_simps)
  also have "\<dots> = accOf rs + (\<Sum>r<15. if r = x then 2 ^ count_list rs x * 16 ^ r else 0)"
    unfolding accOf_def by (rule sum.distrib)
  also have "(\<Sum>r<15. if r = x then 2 ^ count_list rs x * 16 ^ r else 0) = (2::int) ^ count_list rs x * 16 ^ x"
    using assms by (simp add: sum.delta)
  finally show ?thesis by (simp add: mult.commute)
qed

lemma accOf_digit:
  assumes "\<And>r. count_list rs r \<le> 4" and "x < 15"
  shows "accOf rs div 16 ^ x mod 16 = nibbles rs x"
  unfolding accOf_def
proof (rule digit_extract [where d = "nibbles rs"])
  show "\<And>r. 0 \<le> nibbles rs r \<and> nibbles rs r < 16" by (rule nibbles_range) (rule assms)
  show "x < 15" by (rule assms)
qed

lemma foldl_bump_accOf:
  "(\<forall>r\<in>set rs. r < 15) \<Longrightarrow> (\<forall>r. count_list rs r \<le> 4) \<Longrightarrow> foldl bump 0 rs = accOf rs"
proof (induction rs rule: rev_induct)
  case Nil
  show ?case by (simp add: accOf_def nibbles_def)
next
  case (snoc x rs)
  have x: "x < 15" using snoc.prems(1) by simp
  have c: "\<And>r. count_list rs r \<le> 4"
  proof -
    fix r
    have "count_list rs r \<le> count_list (rs @ [x]) r" by simp
    also have "\<dots> \<le> 4" using snoc.prems(2) by blast
    finally show "count_list rs r \<le> 4" .
  qed
  have ih: "foldl bump 0 rs = accOf rs"
    using snoc.IH snoc.prems(1) c by simp
  have "foldl bump 0 (rs @ [x]) = bump (accOf rs) x"
    by (simp add: ih)
  also have "\<dots> = accOf rs + 16 ^ x * (nibbles rs x + 1)"
    by (simp add: bump_def accOf_digit [OF c x])
  also have "\<dots> = accOf rs + 16 ^ x * 2 ^ count_list rs x"
    by (simp add: nibbles_def)
  also have "\<dots> = accOf (rs @ [x])"
    by (simp add: accOf_snoc [OF x])
  finally show ?case .
qed

lemma count_le_all:
  assumes "\<forall>r\<in>set rs. count_list rs r \<le> 4"
  shows "count_list rs r \<le> 4"
proof (cases "r \<in> set rs")
  case True
  then show ?thesis using assms by blast
next
  case False
  then have "count_list rs r = 0" by (simp add: count_list_0_iff)
  then show ?thesis by simp
qed

lemma cdb_accOf:
  assumes "\<forall>r\<in>set rs. r \<le> 14" and "\<forall>r\<in>set rs. count_list rs r \<le> 4"
  shows "countDuplicatesBitwise (map Some rs) = Some (accOf rs)"
proof -
  have "\<forall>r\<in>set rs. r < 15" using assms(1) by auto
  moreover have "\<forall>r. count_list rs r \<le> 4" using count_le_all [OF assms(2)] by blast
  ultimately show ?thesis by (simp add: cdb_foldl foldl_bump_accOf)
qed

lemma accOf_ranks:
  assumes "\<forall>r\<in>set rs. 2 \<le> r"
  shows "accOf rs = (\<Sum>r = 2..14. (2 ^ count_list rs r - 1) * 16 ^ r)"
proof -
  have "(\<Sum>r<15. nibbles rs r * 16 ^ r) = (\<Sum>r\<in>{2..14}. nibbles rs r * 16 ^ r)"
  proof (rule sum.mono_neutral_right)
    show "finite {..<15::nat}" by simp
    show "{2..14} \<subseteq> {..<15::nat}" by auto
    show "\<forall>i\<in>{..<15} - {2..14}. nibbles rs i * 16 ^ i = 0"
    proof
      fix i :: nat
      assume "i \<in> {..<15} - {2..14}"
      then have "i < 2" by auto
      then have "i \<notin> set rs" using assms by auto
      then show "nibbles rs i * 16 ^ i = 0" by (simp add: nibbles_def count_list_0_iff)
    qed
  qed
  then show ?thesis by (simp add: accOf_def nibbles_def)
qed

lemma accOf_bound:
  assumes "\<forall>r\<in>set rs. count_list rs r \<le> 4"
  shows "0 \<le> accOf rs \<and> accOf rs < 2 ^ 60"
proof -
  have "\<And>r. 0 \<le> nibbles rs r \<and> nibbles rs r < 16"
    by (rule nibbles_range) (rule count_le_all [OF assms])
  then have "0 \<le> accOf rs \<and> accOf rs < 16 ^ 15"
    unfolding accOf_def by (rule digits_bound)
  then show ?thesis by simp
qed

lemma sum_ranks_dvd:
  fixes f :: "nat \<Rightarrow> int"
  shows "2 ^ 8 dvd (\<Sum>r = 2..14. f r * 16 ^ r)"
proof (rule dvd_sum)
  fix r :: nat
  assume "r \<in> {2..14}"
  then have "2 \<le> r" by simp
  then have "(16::int) ^ 2 dvd 16 ^ r" by (rule le_imp_power_dvd)
  then have "(2::int) ^ 8 dvd 16 ^ r" by simp
  then show "2 ^ 8 dvd f r * 16 ^ r" by (rule dvd_mult)
qed

subsection \<open>The value of the accumulator\<close>

text \<open>
  C10. For five ranks between 2 and 14, none of them more than four times, the accumulator
  is the sum over the ranks \<open>r\<close> of \<open>(2 ^ count r - 1) * 16 ^ r\<close>: a rank that appears once,
  twice, three or four times leaves 1, 3, 7 or 15 in its nibble. The sum is below \<open>2^60\<close>
  and a multiple of \<open>2^8\<close>, so it has at most 52 significant bits and is exact as a double.
\<close>

theorem C10_accumulator_closed_form:
  assumes "length rs = 5"
    and "\<forall>r\<in>set rs. 2 \<le> r \<and> r \<le> 14"
    and "\<forall>r\<in>set rs. count_list rs r \<le> 4"
  shows "countDuplicatesBitwise (map Some rs)
           = Some (\<Sum>r = 2..14. (2 ^ count_list rs r - 1) * 16 ^ r)
         \<and> (\<Sum>r = 2..14. (2 ^ count_list rs r - 1) * 16 ^ r) < (2 ^ 60 :: int)
         \<and> (2 ^ 8 :: int) dvd (\<Sum>r = 2..14. (2 ^ count_list rs r - 1) * 16 ^ r)"
proof -
  have a: "accOf rs = (\<Sum>r = 2..14. (2 ^ count_list rs r - 1) * 16 ^ r)"
    using assms(2) by (intro accOf_ranks) simp
  have "countDuplicatesBitwise (map Some rs) = Some (accOf rs)"
    using assms(2,3) by (intro cdb_accOf) simp_all
  moreover have "accOf rs < 2 ^ 60"
    using accOf_bound [OF assms(3)] by simp
  ultimately show ?thesis
    unfolding a using sum_ranks_dvd [of "\<lambda>r. 2 ^ count_list rs r - 1"] by simp
qed

theorem C10_accumulator_closed_form_witness:
  "length [8, 8, 11, 9, 9 :: nat] = 5
   \<and> list_all (\<lambda>r. 2 \<le> r \<and> r \<le> 14) [8, 8, 11, 9, 9 :: nat]
   \<and> list_all (\<lambda>r. count_list [8, 8, 11, 9, 9] r \<le> 4) [8, 8, 11, 9, 9 :: nat]
   \<and> countDuplicatesBitwise (map Some [8, 8, 11, 9, 9])
       = Some (\<Sum>r = 2..14. (2 ^ count_list [8, 8, 11, 9, 9] r - 1) * 16 ^ r)
   \<and> (\<Sum>r = 2..14. (2 ^ count_list [8, 8, 11, 9, 9] r - 1) * 16 ^ r) < (2 ^ 60 :: int)
   \<and> (2 ^ 8 :: int) dvd (\<Sum>r = 2..14. (2 ^ count_list [8, 8, 11, 9, 9] r - 1) * 16 ^ r)"
proof -
  have l: "length [8, 8, 11, 9, 9 :: nat] = 5" by simp
  have r: "list_all (\<lambda>r. 2 \<le> r \<and> r \<le> 14) [8, 8, 11, 9, 9 :: nat]" by simp
  have c: "list_all (\<lambda>r. count_list [8, 8, 11, 9, 9] r \<le> 4) [8, 8, 11, 9, 9 :: nat]" by simp
  show ?thesis
    using l r c C10_accumulator_closed_form [OF l r [unfolded list_all_iff] c [unfolded list_all_iff]]
    by (simp only: simp_thms)
qed

text \<open>
  C5. The nibble of a rank is not the number of cards of that rank: for a pair of eights
  the nibble of rank 8 is 3.
\<close>

theorem C5_nibble_is_not_the_count:
  "countDuplicatesBitwise (map Some [8, 8, 11, 9, 9]) = Some 17811229376512
   \<and> (17811229376512 :: int) div 16 ^ 8 mod 16 = 3
   \<and> count_list [8, 8, 11, 9, 9 :: nat] 8 = 2"
  by code_simp

text \<open>
  C5, as the code has it: for five ranks between 2 and 14, none of them more than four
  times, the nibble \<open>value div 16 ^ r mod 16\<close> of a rank \<open>r\<close> is \<open>2 ^ count r - 1\<close>,
  that is 0 when the rank is absent and 1, 3, 7 or 15 when it appears once, twice, three
  or four times.
\<close>

theorem C5_nibble_of_rank:
  assumes "length rs = 5"
    and "\<forall>r\<in>set rs. 2 \<le> r \<and> r \<le> 14"
    and "\<forall>r\<in>set rs. count_list rs r \<le> 4"
  shows "\<exists>v. countDuplicatesBitwise (map Some rs) = Some v
           \<and> (\<forall>r\<in>{2..14}. v div 16 ^ r mod 16 = 2 ^ count_list rs r - 1)"
proof -
  have "countDuplicatesBitwise (map Some rs) = Some (accOf rs)"
    using assms(2,3) by (intro cdb_accOf) simp_all
  moreover have "\<forall>r\<in>{2..14}. accOf rs div 16 ^ r mod 16 = 2 ^ count_list rs r - 1"
  proof
    fix r :: nat
    assume "r \<in> {2..14}"
    then have "r < 15" by simp
    then have "accOf rs div 16 ^ r mod 16 = nibbles rs r"
      by (intro accOf_digit count_le_all [OF assms(3)])
    then show "accOf rs div 16 ^ r mod 16 = 2 ^ count_list rs r - 1"
      by (simp add: nibbles_def)
  qed
  ultimately show ?thesis by blast
qed

theorem C5_nibble_of_rank_witness:
  "length [8, 8, 11, 9, 9 :: nat] = 5
   \<and> list_all (\<lambda>r. 2 \<le> r \<and> r \<le> 14) [8, 8, 11, 9, 9 :: nat]
   \<and> list_all (\<lambda>r. count_list [8, 8, 11, 9, 9] r \<le> 4) [8, 8, 11, 9, 9 :: nat]
   \<and> (\<exists>v. countDuplicatesBitwise (map Some [8, 8, 11, 9, 9]) = Some v
           \<and> (\<forall>r\<in>{2..14}. v div 16 ^ r mod 16 = 2 ^ count_list [8, 8, 11, 9, 9] r - 1))"
proof -
  have l: "length [8, 8, 11, 9, 9 :: nat] = 5" by simp
  have r: "list_all (\<lambda>r. 2 \<le> r \<and> r \<le> 14) [8, 8, 11, 9, 9 :: nat]" by simp
  have c: "list_all (\<lambda>r. count_list [8, 8, 11, 9, 9] r \<le> 4) [8, 8, 11, 9, 9 :: nat]" by simp
  show ?thesis
    using l r c C5_nibble_of_rank [OF l r [unfolded list_all_iff] c [unfolded list_all_iff]]
    by (simp only: simp_thms)
qed

section \<open>The duplicate signature\<close>

text \<open>
  Modulo 15 every power of 16 is 1, so the accumulator modulo 15 is the sum of its nibbles
  modulo 15, which depends on the multiplicities of the ranks only.
\<close>

lemma pow16_mod15: "(16::int) ^ r mod 15 = 1"
proof -
  have "(16::int) ^ r mod 15 = (16 mod 15) ^ r mod 15"
    by (simp only: power_mod)
  then show ?thesis by simp
qed

lemma digit_mod15: "(d * 16 ^ r) mod 15 = (d::int) mod 15"
proof -
  have "(d * 16 ^ r) mod 15 = (d mod 15 * (16 ^ r mod 15)) mod 15"
    by (simp only: mod_mult_eq)
  then show ?thesis by (simp add: pow16_mod15)
qed

lemma digits_mod15:
  fixes d :: "nat \<Rightarrow> int"
  shows "(\<Sum>r<n. d r * 16 ^ r) mod 15 = (\<Sum>r<n. d r) mod 15"
proof (induction n)
  case 0
  show ?case by simp
next
  case (Suc n)
  have "(\<Sum>r<Suc n. d r * 16 ^ r) mod 15
        = ((\<Sum>r<n. d r * 16 ^ r) mod 15 + (d n * 16 ^ n) mod 15) mod 15"
    by (simp only: sum.lessThan_Suc mod_add_eq)
  also have "\<dots> = ((\<Sum>r<n. d r) mod 15 + d n mod 15) mod 15"
    by (simp only: Suc.IH digit_mod15)
  also have "\<dots> = (\<Sum>r<Suc n. d r) mod 15"
    by (simp only: sum.lessThan_Suc mod_add_eq)
  finally show ?case .
qed

lemma sum_nibbles_set:
  assumes "\<forall>r\<in>set rs. r < 15"
  shows "(\<Sum>r<15. nibbles rs r) = (\<Sum>r\<in>set rs. nibbles rs r)"
proof (rule sum.mono_neutral_right)
  show "finite {..<15::nat}" by simp
  show "set rs \<subseteq> {..<15}" using assms by auto
  show "\<forall>i\<in>{..<15} - set rs. nibbles rs i = 0"
    by (simp add: nibbles_def count_list_0_iff)
qed

lemma sum_list_sort_map:
  fixes f :: "nat \<Rightarrow> int"
  shows "sum_list (map f (sort xs)) = sum_list (map f xs)"
proof -
  have "mset (map f (sort xs)) = mset (map f xs)" by simp
  then show ?thesis by (metis sum_mset_sum_list)
qed

lemma sum_nibbles_multiplicities:
  "(\<Sum>r\<in>set rs. nibbles rs r) = sum_list (map (\<lambda>c. 2 ^ c - 1) (multiplicities rs))"
proof -
  have "(\<Sum>r\<in>set rs. nibbles rs r) = (\<Sum>r\<in>set (remdups rs). nibbles rs r)"
    by simp
  also have "\<dots> = sum_list (map (nibbles rs) (remdups rs))"
    by (rule sum.distinct_set_conv_list) simp
  also have "\<dots> = sum_list (map (\<lambda>c. 2 ^ c - 1) (map (count_list rs) (remdups rs)))"
    unfolding map_map comp_def by (rule arg_cong [where f = sum_list], rule map_cong) (simp_all add: nibbles_def)
  also have "\<dots> = sum_list (map (\<lambda>c. 2 ^ c - 1) (multiplicities rs))"
    by (simp only: multiplicities_def sum_list_sort_map)
  finally show ?thesis .
qed

lemma accOf_mod15:
  assumes "\<forall>r\<in>set rs. r < 15"
  shows "accOf rs mod 15 = sum_list (map (\<lambda>c. 2 ^ c - 1) (multiplicities rs)) mod 15"
  by (simp only: accOf_def digits_mod15 sum_nibbles_set [OF assms] sum_nibbles_multiplicities)

lemma sum_list_multiplicities: "sum_list (multiplicities rs) = length rs"
proof -
  have "sum_list (multiplicities rs) = sum_list (map (count_list rs) (remdups rs))"
    unfolding multiplicities_def by (metis mset_sort sum_mset_sum_list)
  also have "\<dots> = (\<Sum>r\<in>set (remdups rs). count_list rs r)"
    by (rule sum.distinct_set_conv_list [symmetric]) simp
  also have "\<dots> = length rs"
    by (simp add: sum_count_set)
  finally show ?thesis .
qed

lemma set_multiplicities: "set (multiplicities rs) = count_list rs ` set rs"
  by (simp add: multiplicities_def)

lemma sorted_multiplicities: "sorted (multiplicities rs)"
  by (simp add: multiplicities_def)

lemma partitions_of_five:
  assumes "sorted ms" and "\<forall>m\<in>set ms. 1 \<le> m \<and> m \<le> 4" and "sum_list ms = 5"
  shows "ms \<in> {[1, 1, 1, 1, 1], [1, 1, 1, 2], [1, 2, 2], [1, 1, 3], [2, 3], [1, 4 :: nat]}"
proof (cases ms)
  case Nil
  then show ?thesis using assms by simp
next
  case a: (Cons a as)
  show ?thesis
  proof (cases as)
    case Nil
    then show ?thesis using assms a by simp
  next
    case b: (Cons b bs)
    show ?thesis
    proof (cases bs)
      case Nil
      then show ?thesis using assms a b by auto
    next
      case c: (Cons c cs)
      show ?thesis
      proof (cases cs)
        case Nil
        then show ?thesis using assms a b c by auto
      next
        case d: (Cons d ds)
        show ?thesis
        proof (cases ds)
          case Nil
          then show ?thesis using assms a b c d by auto
        next
          case e: (Cons e es)
          show ?thesis
          proof (cases es)
            case Nil
            then show ?thesis using assms a b c d e by auto
          next
            case (Cons f fs)
            then show ?thesis using assms a b c d e by auto
          qed
        qed
      qed
    qed
  qed
qed


text \<open>A valid hand has four suits to choose from, so no rank appears more than four times.\<close>

lemma count_rank_le_4:
  assumes "distinct cs" and "list_all validCard cs"
  shows "count_list (map fst cs) r \<le> 4"
proof -
  let ?f = "filter (\<lambda>c. fst c = r) cs"
  have "count_list (map fst cs) r = length ?f"
    by (induction cs) simp_all
  also have "\<dots> = length (map snd ?f)" by simp
  also have "\<dots> = card (set (map snd ?f))"
  proof (rule distinct_card [symmetric])
    have "inj_on snd (set ?f)" by (auto simp: inj_on_def prod_eq_iff)
    then show "distinct (map snd ?f)" using assms(1) by (simp add: distinct_map)
  qed
  also have "\<dots> \<le> card {1, 2, 4, 8 :: nat}"
  proof (rule card_mono)
    show "finite {1, 2, 4, 8 :: nat}" by simp
    show "set (map snd ?f) \<subseteq> {1, 2, 4, 8}"
      using assms(2) by (auto simp: list_all_iff validCard_def)
  qed
  also have "\<dots> = 4" by simp
  finally show ?thesis .
qed

lemma valid_ranks:
  assumes "validHand cs"
  shows "length (map fst cs) = 5"
    and "\<forall>r\<in>set (map fst cs). 2 \<le> r \<and> r \<le> 14"
    and "\<forall>r\<in>set (map fst cs). count_list (map fst cs) r \<le> 4"
proof -
  show "length (map fst cs) = 5" using assms by (simp add: validHand_def)
  show "\<forall>r\<in>set (map fst cs). 2 \<le> r \<and> r \<le> 14"
    using assms by (auto simp: validHand_def list_all_iff validCard_def)
  show "\<forall>r\<in>set (map fst cs). count_list (map fst cs) r \<le> 4"
    using assms count_rank_le_4 [of cs] by (simp add: validHand_def)
qed

lemma ranksOf_map: "ranksOf cs = map Some (map fst cs)"
  by (simp add: ranksOf_def)

lemma valid_cdb:
  assumes "validHand cs"
  shows "countDuplicatesBitwise (ranksOf cs) = Some (accOf (map fst cs))"
  unfolding ranksOf_map using valid_ranks [OF assms] by (intro cdb_accOf) simp_all

lemma valid_multiplicities:
  assumes "validHand cs"
  shows "multiplicities (map fst cs)
         \<in> {[1, 1, 1, 1, 1], [1, 1, 1, 2], [1, 2, 2], [1, 1, 3], [2, 3], [1, 4]}"
proof (rule partitions_of_five)
  show "sorted (multiplicities (map fst cs))" by (rule sorted_multiplicities)
  show "sum_list (multiplicities (map fst cs)) = 5"
    using valid_ranks(1) [OF assms] by (simp only: sum_list_multiplicities)
  show "\<forall>m\<in>set (multiplicities (map fst cs)). 1 \<le> m \<and> m \<le> 4"
  proof
    fix m
    assume "m \<in> set (multiplicities (map fst cs))"
    then obtain r where r: "r \<in> set (map fst cs)" and m: "m = count_list (map fst cs) r"
      unfolding set_multiplicities by blast
    have "count_list (map fst cs) r \<noteq> 0" using r by (simp only: count_list_0_iff) simp
    then have "0 < count_list (map fst cs) r" by simp
    moreover have "count_list (map fst cs) r \<le> 4" using valid_ranks(3) [OF assms] r by blast
    ultimately show "1 \<le> m \<and> m \<le> 4" using m by simp
  qed
qed

lemma distinct_count_1: "distinct rs \<Longrightarrow> x \<in> set rs \<Longrightarrow> count_list rs x = 1"
  by (induction rs) auto

lemma distinct_multiplicities:
  assumes "length rs = 5"
  shows "distinct rs \<longleftrightarrow> multiplicities rs = [1, 1, 1, 1, 1]"
proof
  assume d: "distinct rs"
  then have "map (count_list rs) (remdups rs) = map (\<lambda>_. 1) rs"
    by (simp add: distinct_remdups_id distinct_count_1 cong: map_cong)
  also have "\<dots> = replicate 5 1" using assms by (simp add: map_replicate_const)
  finally have "multiplicities rs = sort (replicate 5 1)" by (simp add: multiplicities_def)
  also have "\<dots> = [1, 1, 1, 1, 1]" by code_simp
  finally show "multiplicities rs = [1, 1, 1, 1, 1]" .
next
  assume "multiplicities rs = [1, 1, 1, 1, 1]"
  then have "length (multiplicities rs) = 5" by simp
  then have "length (remdups rs) = length rs" using assms by (simp add: multiplicities_def)
  then show "distinct rs" by (metis distinct_remdups length_remdups_eq)
qed

lemma signature_of_shape:
  assumes "validHand cs"
  shows "accOf (map fst cs) mod 15 =
     (let ms = multiplicities (map fst cs) in
      if ms = [1, 1, 1, 1, 1] then 5
      else if ms = [1, 1, 1, 2] then 6
      else if ms = [1, 2, 2] then 7
      else if ms = [1, 1, 3] then 9
      else if ms = [2, 3] then 10
      else 1)"
proof -
  have "\<forall>r\<in>set (map fst cs). r < 15" using valid_ranks(2) [OF assms] by auto
  then have e: "accOf (map fst cs) mod 15
      = sum_list (map (\<lambda>c. 2 ^ c - 1) (multiplicities (map fst cs))) mod 15"
    by (rule accOf_mod15)
  show ?thesis
    unfolding e using valid_multiplicities [OF assms] by auto
qed


lemma rankPokerHand_Some:
  assumes "countDuplicatesBitwise ranks = Some v"
  shows "rankPokerHand ranks suits =
     (if v mod 15 \<noteq> 5 then mkAnalysis (KeyNum (v mod 15)) (countRanksBitwise ranks) (v mod 15)
      else if isFlush suits \<and> countRanksBitwise ranks = BROADWAY_HASH
        then mkAnalysis KeyRF (countRanksBitwise ranks) (v mod 15)
      else if isStraight (countRanksBitwise ranks) \<and> isFlush suits
        then mkAnalysis KeySF (countRanksBitwise ranks) (v mod 15)
      else if isFlush suits then mkAnalysis KeyF (countRanksBitwise ranks) (v mod 15)
      else if isStraight (countRanksBitwise ranks)
        then mkAnalysis KeyS (countRanksBitwise ranks) (v mod 15)
      else mkAnalysis KeyHC (countRanksBitwise ranks) (v mod 15))"
  by (simp add: rankPokerHand_def assms Let_def)

lemma rankPokerHand_signature:
  assumes "countDuplicatesBitwise ranks = Some v" and "v mod 15 \<in> {1, 5, 6, 7, 9, 10}"
  shows "\<exists>a. rankPokerHand ranks suits = Inr a \<and> btCount a = v mod 15
           \<and> btRanks a = countRanksBitwise ranks
           \<and> (handRank a = pair \<longleftrightarrow> v mod 15 = 6)
           \<and> (handRank a = twoPair \<longleftrightarrow> v mod 15 = 7)
           \<and> (handRank a = trips \<longleftrightarrow> v mod 15 = 9)
           \<and> (handRank a = fullHouse \<longleftrightarrow> v mod 15 = 10)
           \<and> (handRank a = quads \<longleftrightarrow> v mod 15 = 1)"
proof -
  consider "v mod 15 = 1" | "v mod 15 = 5" | "v mod 15 = 6" | "v mod 15 = 7"
    | "v mod 15 = 9" | "v mod 15 = 10"
    using assms(2) by auto
  then show ?thesis
  proof cases
    case 1
    then show ?thesis by (simp add: rankPokerHand_Some [OF assms(1)] mkAnalysis_def)
  next
    case 2
    then show ?thesis by (simp add: rankPokerHand_Some [OF assms(1)] mkAnalysis_def)
  next
    case 3
    then show ?thesis by (simp add: rankPokerHand_Some [OF assms(1)] mkAnalysis_def)
  next
    case 4
    then show ?thesis by (simp add: rankPokerHand_Some [OF assms(1)] mkAnalysis_def)
  next
    case 5
    then show ?thesis by (simp add: rankPokerHand_Some [OF assms(1)] mkAnalysis_def)
  next
    case 6
    then show ?thesis by (simp add: rankPokerHand_Some [OF assms(1)] mkAnalysis_def)
  qed
qed

text \<open>
  C6. For a valid hand the accumulator modulo 15 is one of 1, 5, 6, 7, 9 and 10. It is 5
  exactly when no rank is duplicated, 6 exactly for one pair, 7 for two pair, 9 for trips
  without a pair, 10 for a full house and 1 for quads, and the category that
  \<open>rankPokerHand\<close> looks up for it is the one of these multiplicities.
\<close>

theorem C6_duplicate_signature:
  assumes "validHand cs"
  shows "\<exists>v a. countDuplicatesBitwise (ranksOf cs) = Some v
           \<and> v mod 15 \<in> {1, 5, 6, 7, 9, 10}
           \<and> (v mod 15 = 5 \<longleftrightarrow> distinct (map fst cs))
           \<and> (v mod 15 = 6 \<longleftrightarrow> multiplicities (map fst cs) = [1, 1, 1, 2])
           \<and> (v mod 15 = 7 \<longleftrightarrow> multiplicities (map fst cs) = [1, 2, 2])
           \<and> (v mod 15 = 9 \<longleftrightarrow> multiplicities (map fst cs) = [1, 1, 3])
           \<and> (v mod 15 = 10 \<longleftrightarrow> multiplicities (map fst cs) = [2, 3])
           \<and> (v mod 15 = 1 \<longleftrightarrow> multiplicities (map fst cs) = [1, 4])
           \<and> rankPokerHand (ranksOf cs) (suitsOf cs) = Inr a
           \<and> btCount a = v mod 15
           \<and> (handRank a = pair \<longleftrightarrow> multiplicities (map fst cs) = [1, 1, 1, 2])
           \<and> (handRank a = twoPair \<longleftrightarrow> multiplicities (map fst cs) = [1, 2, 2])
           \<and> (handRank a = trips \<longleftrightarrow> multiplicities (map fst cs) = [1, 1, 3])
           \<and> (handRank a = fullHouse \<longleftrightarrow> multiplicities (map fst cs) = [2, 3])
           \<and> (handRank a = quads \<longleftrightarrow> multiplicities (map fst cs) = [1, 4])"
proof -
  let ?ms = "multiplicities (map fst cs)"
  let ?v = "accOf (map fst cs)"
  have v: "countDuplicatesBitwise (ranksOf cs) = Some ?v"
    by (rule valid_cdb [OF assms])
  have s: "?v mod 15 =
     (if ?ms = [1, 1, 1, 1, 1] then 5 else if ?ms = [1, 1, 1, 2] then 6
      else if ?ms = [1, 2, 2] then 7 else if ?ms = [1, 1, 3] then 9
      else if ?ms = [2, 3] then 10 else 1)"
    using signature_of_shape [OF assms] by (simp only: Let_def)
  have d: "distinct (map fst cs) \<longleftrightarrow> ?ms = [1, 1, 1, 1, 1]"
    using valid_ranks(1) [OF assms] by (rule distinct_multiplicities)
  have m: "?ms \<in> {[1, 1, 1, 1, 1], [1, 1, 1, 2], [1, 2, 2], [1, 1, 3], [2, 3], [1, 4]}"
    by (rule valid_multiplicities [OF assms])
  have k: "?v mod 15 \<in> {1, 5, 6, 7, 9, 10}"
    unfolding s by simp
  have e: "(?v mod 15 = 5 \<longleftrightarrow> ?ms = [1, 1, 1, 1, 1])" "(?v mod 15 = 6 \<longleftrightarrow> ?ms = [1, 1, 1, 2])"
    "(?v mod 15 = 7 \<longleftrightarrow> ?ms = [1, 2, 2])" "(?v mod 15 = 9 \<longleftrightarrow> ?ms = [1, 1, 3])"
    "(?v mod 15 = 10 \<longleftrightarrow> ?ms = [2, 3])" "(?v mod 15 = 1 \<longleftrightarrow> ?ms = [1, 4])"
    using m unfolding s by auto
  obtain a where a: "rankPokerHand (ranksOf cs) (suitsOf cs) = Inr a" "btCount a = ?v mod 15"
    "handRank a = pair \<longleftrightarrow> ?v mod 15 = 6" "handRank a = twoPair \<longleftrightarrow> ?v mod 15 = 7"
    "handRank a = trips \<longleftrightarrow> ?v mod 15 = 9" "handRank a = fullHouse \<longleftrightarrow> ?v mod 15 = 10"
    "handRank a = quads \<longleftrightarrow> ?v mod 15 = 1"
    using rankPokerHand_signature [OF v k, of "suitsOf cs"] by blast
  show ?thesis
    using v k a unfolding d e [symmetric]
    by (intro exI [of _ ?v] exI [of _ a]) (simp only: simp_thms)
qed

theorem C6_duplicate_signature_witness:
  "validHand [(11, 4), (11, 2), (11, 8), (11, 1), (2, 4)]
   \<and> (\<exists>v a. countDuplicatesBitwise (ranksOf [(11, 4), (11, 2), (11, 8), (11, 1), (2, 4)]) = Some v
           \<and> v mod 15 \<in> {1, 5, 6, 7, 9, 10}
           \<and> (v mod 15 = 1 \<longleftrightarrow> multiplicities (map fst ([(11, 4), (11, 2), (11, 8), (11, 1), (2, 4)] :: card list)) = [1, 4])
           \<and> rankPokerHand (ranksOf [(11, 4), (11, 2), (11, 8), (11, 1), (2, 4)])
                (suitsOf [(11, 4), (11, 2), (11, 8), (11, 1), (2, 4)]) = Inr a
           \<and> (handRank a = quads \<longleftrightarrow> multiplicities (map fst ([(11, 4), (11, 2), (11, 8), (11, 1), (2, 4)] :: card list)) = [1, 4]))"
proof -
  have "validHand [(11, 4), (11, 2), (11, 8), (11, 1), (2, 4)]"
    by (simp add: validHand_def validCard_def)
  then show ?thesis
    using C6_duplicate_signature [of "[(11, 4), (11, 2), (11, 8), (11, 1), (2, 4)]"] by blast
qed

section \<open>The rank signature and the flush test\<close>

text \<open>
  For a valid hand the 32-bit operations do not overflow: bit \<open>n\<close> of the rank signature
  is set exactly when rank \<open>n\<close> is in the hand, and the flush test holds exactly when the
  five suit codes are equal.
\<close>

lemma unat_and_31:
  assumes "r < 32"
  shows "unat ((word_of_nat r :: 32 word) AND 31) = r"
proof -
  have "(31 :: 32 word) = mask 5" by (simp add: mask_eq_exp_minus_1)
  then have "(word_of_nat r :: 32 word) AND 31 = take_bit 5 (word_of_nat r)"
    by (simp add: take_bit_eq_mask)
  moreover have "unat (take_bit 5 (word_of_nat r :: 32 word)) = take_bit 5 (unat (word_of_nat r :: 32 word))"
    by (rule unsigned_take_bit_eq)
  moreover have "unat (word_of_nat r :: 32 word) = take_bit 32 r"
    by (simp add: unsigned_of_nat)
  moreover have "take_bit 5 (take_bit 32 r) = r"
    using assms by (simp add: take_bit_eq_mod)
  ultimately show ?thesis by simp
qed

lemma bit_shl1:
  assumes "r < 32"
  shows "bit (shl1 (Some r)) n \<longleftrightarrow> n = r"
  using assms by (auto simp: shl1_def toInt32_def unat_and_31 bit_exp_iff possible_bit_word)

lemma list5:
  assumes "length xs = 5"
  obtains a b c d e where "xs = [a, b, c, d, e]"
  using assms by (auto simp: length_Suc_conv eval_nat_numeral)

lemma upt_0_5: "[0..<5] = [0, 1, 2, 3, 4]"
  by code_simp

lemma crb_unfold:
  "countRanksBitwise [a, b, c, d, e] = sint (shl1 a OR shl1 b OR shl1 c OR shl1 d OR shl1 e)"
  by (simp add: countRanksBitwise_def upt_0_5 at_index_def ac_simps)

lemma bit_crb:
  assumes "length rs = 5" and "\<forall>r\<in>set rs. r \<le> 14"
  shows "bit (countRanksBitwise (map Some rs)) n \<longleftrightarrow> n \<in> set rs"
proof -
  obtain a b c d e where rs: "rs = [a, b, c, d, e]" using assms(1) by (rule list5)
  have le: "a \<le> 14" "b \<le> 14" "c \<le> 14" "d \<le> 14" "e \<le> 14" using assms(2) rs by auto
  then have lt: "a < 32" "b < 32" "c < 32" "d < 32" "e < 32" by auto
  show ?thesis
    unfolding rs using le
    by (auto simp: crb_unfold bit_sint_iff bit_or_iff bit_shl1 [OF lt(1)] bit_shl1 [OF lt(2)]
        bit_shl1 [OF lt(3)] bit_shl1 [OF lt(4)] bit_shl1 [OF lt(5)])
qed

lemma bit_rankMask: "bit (rankMask rs) n \<longleftrightarrow> n \<in> set rs"
  by (induction rs) (auto simp: rankMask_def bit_or_iff bit_exp_iff)

lemma crb_rankMask:
  assumes "length rs = 5" and "\<forall>r\<in>set rs. r \<le> 14"
  shows "countRanksBitwise (map Some rs) = rankMask rs"
  by (rule bit_eqI) (simp add: bit_crb [OF assms] bit_rankMask)

lemma rankMask_set: "set rs = set rs' \<Longrightarrow> rankMask rs = rankMask rs'"
  by (rule bit_eqI) (simp add: bit_rankMask)

lemma isFlush_unfold:
  "isFlush [Some s0, Some s1, Some s2, Some s3, Some s4]
   = (int s0 = sint ((word_of_nat s1 :: 32 word) OR word_of_nat s2 OR word_of_nat s3 OR word_of_nat s4))"
  by (simp add: isFlush_def at_index_def toInt32_def)

lemma isFlush_sameSuit:
  assumes "validHand cs"
  shows "isFlush (suitsOf cs) \<longleftrightarrow> sameSuit cs"
proof -
  obtain a b c d e where cs: "cs = [a, b, c, d, e]"
    using assms by (auto simp: validHand_def elim: list5)
  have s: "snd a \<in> {1, 2, 4, 8}" "snd b \<in> {1, 2, 4, 8}" "snd c \<in> {1, 2, 4, 8}"
    "snd d \<in> {1, 2, 4, 8}" "snd e \<in> {1, 2, 4, 8}"
    using assms by (simp_all add: validHand_def validCard_def cs)
  show ?thesis
    unfolding cs suitsOf_def sameSuit_def using s
    apply (simp add: isFlush_unfold)
    apply (elim disjE)
    apply simp_all
    done
qed

lemma rankMask_inj:
  assumes "rankMask rs = rankMask rs'"
  shows "set rs = set rs'"
proof (rule set_eqI)
  fix n
  have "bit (rankMask rs) n \<longleftrightarrow> bit (rankMask rs') n" by (simp only: assms)
  then show "n \<in> set rs \<longleftrightarrow> n \<in> set rs'" by (simp only: bit_rankMask)
qed

lemma rankMask_range:
  assumes "\<forall>r\<in>set rs. r \<le> 14"
  shows "0 \<le> rankMask rs \<and> rankMask rs < 2 ^ 15"
proof -
  have "take_bit 15 (rankMask rs) = rankMask rs"
    using assms by (intro bit_eqI) (auto simp: bit_take_bit_iff bit_rankMask)
  then show ?thesis by (simp only: take_bit_int_eq_self_iff)
qed

lemma rankMask_wheel: "rankMask rs = WHEEL_HASH \<longleftrightarrow> wheelRanks rs"
proof -
  have w: "WHEEL_HASH = rankMask [14, 2, 3, 4, 5]"
    by (simp add: WHEEL_HASH_def rankMask_def)
  show ?thesis
    unfolding w wheelRanks_def using rankMask_inj [of rs "[14, 2, 3, 4, 5]"]
      rankMask_set [of rs "[14, 2, 3, 4, 5]"] by auto
qed

lemma rankMask_broadway: "rankMask rs = BROADWAY_HASH \<longleftrightarrow> set rs = {10, 11, 12, 13, 14}"
proof -
  have w: "BROADWAY_HASH = rankMask [14, 13, 12, 11, 10]"
    by (simp add: BROADWAY_HASH_def rankMask_def)
  show ?thesis
    unfolding w using rankMask_inj [of rs "[14, 13, 12, 11, 10]"]
      rankMask_set [of rs "[14, 13, 12, 11, 10]"] by auto
qed

lemma lowestBit_int:
  assumes "0 \<le> x" and "x < 2 ^ 15"
  shows "lowestBit x = x AND - x"
proof -
  have "(word_of_int x :: 32 word) AND word_of_int (- x) = word_of_int (x AND - x)"
    by (simp only: of_int_and_eq)
  then have "lowestBit x = signed_take_bit 31 (x AND - x)"
    by (simp add: lowestBit_def signed_of_int)
  also have "\<dots> = x AND - x"
  proof (rule signed_take_bit_int_eq_self)
    have a: "0 \<le> x AND - x" using assms(1) by simp
    have b: "x AND - x \<le> x" using assms(1) by simp
    show "- (2 ^ 31) \<le> x AND - x" by (rule order_trans [OF _ a]) simp
    have "x < 2 ^ 31" by (rule order_less_trans [OF assms(2)]) simp
    then show "x AND - x < 2 ^ 31" using b by (rule order_le_less_trans [rotated])
  qed
  finally show ?thesis .
qed

subsection \<open>Reordering the cards\<close>

lemma valid_perm:
  assumes "validHand cs" and "mset cs' = mset cs"
  shows "validHand cs'"
proof -
  have "length cs' = length cs" using assms(2) by (rule mset_eq_length)
  moreover have "distinct cs' \<longleftrightarrow> distinct cs" using assms(2) by (rule mset_eq_imp_distinct_iff)
  moreover have "set cs' = set cs" using assms(2) by (rule mset_eq_setD)
  ultimately show ?thesis using assms(1) by (simp add: validHand_def list_all_iff)
qed

lemma accOf_mset:
  assumes "mset rs' = mset rs"
  shows "accOf rs' = accOf rs"
proof -
  have "\<And>r. count_list rs' r = count_list rs r"
    using assms by (metis count_mset)
  then show ?thesis by (simp add: accOf_def nibbles_def)
qed

lemma sameSuit_set: "set cs' = set cs \<Longrightarrow> sameSuit cs' = sameSuit cs"
  by (simp add: sameSuit_def)

lemma valid_crb:
  assumes "validHand cs"
  shows "countRanksBitwise (ranksOf cs) = rankMask (map fst cs)"
  unfolding ranksOf_map using valid_ranks [OF assms] by (intro crb_rankMask) simp_all

lemma perm_encodings:
  assumes "validHand cs" and "mset cs' = mset cs"
  shows "countRanksBitwise (ranksOf cs') = countRanksBitwise (ranksOf cs)"
    and "countDuplicatesBitwise (ranksOf cs') = countDuplicatesBitwise (ranksOf cs)"
    and "isFlush (suitsOf cs') = isFlush (suitsOf cs)"
proof -
  have v': "validHand cs'" by (rule valid_perm [OF assms])
  have s: "set cs' = set cs" using assms(2) by (rule mset_eq_setD)
  have m: "mset (map fst cs') = mset (map fst cs)" using assms(2) by simp
  show "countRanksBitwise (ranksOf cs') = countRanksBitwise (ranksOf cs)"
    unfolding valid_crb [OF assms(1)] valid_crb [OF v']
    by (rule rankMask_set) (simp add: s)
  show "countDuplicatesBitwise (ranksOf cs') = countDuplicatesBitwise (ranksOf cs)"
    unfolding valid_cdb [OF assms(1)] valid_cdb [OF v'] by (simp only: accOf_mset [OF m])
  show "isFlush (suitsOf cs') = isFlush (suitsOf cs)"
    unfolding isFlush_sameSuit [OF assms(1)] isFlush_sameSuit [OF v'] by (rule sameSuit_set [OF s])
qed

lemma valid_signature:
  assumes "validHand cs"
  shows "accOf (map fst cs) mod 15 \<in> {1, 5, 6, 7, 9, 10}"
  using valid_multiplicities [OF assms] unfolding signature_of_shape [OF assms] by auto

text \<open>
  C9. Reordering the cards of a valid hand changes neither the rank signature nor the
  accumulator, and \<open>rankPokerHand\<close> returns the same category.
\<close>

theorem C9_order_independent:
  assumes "validHand cs" and "mset cs' = mset cs"
  shows "countRanksBitwise (ranksOf cs') = countRanksBitwise (ranksOf cs)
         \<and> countDuplicatesBitwise (ranksOf cs') = countDuplicatesBitwise (ranksOf cs)
         \<and> (\<exists>a a'. rankPokerHand (ranksOf cs) (suitsOf cs) = Inr a
                \<and> rankPokerHand (ranksOf cs') (suitsOf cs') = Inr a'
                \<and> handRank a' = handRank a)"
proof -
  note e = perm_encodings [OF assms]
  have v: "countDuplicatesBitwise (ranksOf cs) = Some (accOf (map fst cs))"
    by (rule valid_cdb [OF assms(1)])
  have v': "countDuplicatesBitwise (ranksOf cs') = Some (accOf (map fst cs))"
    using v by (simp only: e(2))
  have "rankPokerHand (ranksOf cs') (suitsOf cs') = rankPokerHand (ranksOf cs) (suitsOf cs)"
    unfolding rankPokerHand_Some [OF v] rankPokerHand_Some [OF v'] e(1) e(3) by (rule refl)
  moreover obtain a where "rankPokerHand (ranksOf cs) (suitsOf cs) = Inr a"
    using rankPokerHand_signature [OF v valid_signature [OF assms(1)]] by blast
  ultimately show ?thesis using e(1,2) by simp
qed

theorem C9_order_independent_witness:
  "validHand [(8, 1), (8, 8), (11, 2), (9, 1), (9, 8)]
   \<and> mset ([(9, 8), (11, 2), (8, 8), (9, 1), (8, 1)] :: card list) = mset [(8, 1), (8, 8), (11, 2), (9, 1), (9, 8)]
   \<and> (\<exists>a a'. rankPokerHand (ranksOf [(8, 1), (8, 8), (11, 2), (9, 1), (9, 8)])
                (suitsOf [(8, 1), (8, 8), (11, 2), (9, 1), (9, 8)]) = Inr a
                \<and> rankPokerHand (ranksOf [(9, 8), (11, 2), (8, 8), (9, 1), (8, 1)])
                    (suitsOf [(9, 8), (11, 2), (8, 8), (9, 1), (8, 1)]) = Inr a'
                \<and> handRank a' = handRank a)"
proof -
  have v: "validHand [(8, 1), (8, 8), (11, 2), (9, 1), (9, 8)]"
    by (simp add: validHand_def validCard_def)
  have p: "mset ([(9, 8), (11, 2), (8, 8), (9, 1), (8, 1)] :: card list) = mset [(8, 1), (8, 8), (11, 2), (9, 1), (9, 8)]"
    by simp
  show ?thesis
    using v p C9_order_independent [OF v p] by blast
qed

section \<open>Hands without duplicated ranks\<close>

subsection \<open>The lowest set bit\<close>

lemma odd_and_neg:
  fixes m :: int
  assumes "odd m"
  shows "m AND - m = 1"
proof (rule bit_eqI)
  fix n
  have h: "(m - 1) div 2 = m div 2" using assms by presburger
  show "bit (m AND - m) n \<longleftrightarrow> bit (1::int) n"
  proof (cases n)
    case 0
    then show ?thesis using assms by (simp add: minus_eq_not_minus_1 bit_0 even_and_iff even_not_iff)
  next
    case (Suc k)
    have "bit (m - 1) (Suc k) \<longleftrightarrow> bit m (Suc k)"
      by (simp only: bit_Suc h)
    then have "\<not> bit (m AND NOT (m - 1)) (Suc k)"
      by (simp only: bit_and_iff bit_not_int_iff) simp
    then show ?thesis
      unfolding Suc by (simp add: minus_eq_not_minus_1 bit_1_iff del: bit_and_iff)
  qed
qed

lemma rankMask_push:
  assumes "\<forall>r\<in>set rs. lo \<le> r"
  shows "push_bit lo (drop_bit lo (rankMask rs)) = rankMask rs"
  using assms by (intro bit_eqI) (auto simp: bit_push_bit_iff bit_drop_bit_eq bit_rankMask)

lemma rankMask_lowbit:
  assumes "rs \<noteq> []"
  shows "rankMask rs AND - rankMask rs = 2 ^ Min (set rs)"
proof -
  let ?lo = "Min (set rs)"
  let ?m = "drop_bit ?lo (rankMask rs)"
  have lo: "?lo \<in> set rs" using assms by (intro Min_in) simp_all
  have "\<forall>r\<in>set rs. ?lo \<le> r" by simp
  then have p: "push_bit ?lo ?m = rankMask rs" by (rule rankMask_push)
  have "bit ?m 0" using lo by (simp add: bit_drop_bit_eq bit_rankMask)
  then have "odd ?m" by (simp add: bit_0)
  then have one: "?m AND - ?m = 1" by (rule odd_and_neg)
  have "rankMask rs AND - rankMask rs = push_bit ?lo ?m AND - push_bit ?lo ?m"
    by (simp only: p)
  also have "\<dots> = push_bit ?lo (?m AND - ?m)"
    by (simp only: push_bit_minus [symmetric] push_bit_and)
  also have "\<dots> = 2 ^ ?lo"
    by (simp only: one) (simp add: push_bit_eq_mult)
  finally show ?thesis .
qed

lemma rankMask_div_lowbit:
  assumes "rs \<noteq> []"
  shows "rankMask rs div (rankMask rs AND - rankMask rs) = 31
         \<longleftrightarrow> rankMask rs = 31 * 2 ^ Min (set rs)"
proof -
  let ?lo = "Min (set rs)"
  let ?m = "drop_bit ?lo (rankMask rs)"
  have "\<forall>r\<in>set rs. ?lo \<le> r" by simp
  then have "push_bit ?lo ?m = rankMask rs" by (rule rankMask_push)
  then have p: "rankMask rs = ?m * 2 ^ ?lo" by (simp add: push_bit_eq_mult)
  have "rankMask rs div 2 ^ ?lo = ?m" by (simp add: drop_bit_eq_div)
  moreover have "?m = 31 \<longleftrightarrow> rankMask rs = 31 * 2 ^ ?lo"
    using p by (metis mult_cancel_right power_not_zero zero_neq_numeral)
  ultimately show ?thesis by (simp only: rankMask_lowbit [OF assms])
qed

lemma isStraight_rankMask:
  assumes "rs \<noteq> []" and "\<forall>r\<in>set rs. r \<le> 14"
  shows "isStraight (rankMask rs)
         \<longleftrightarrow> rankMask rs div (rankMask rs AND - rankMask rs) = 31 \<or> rankMask rs = WHEEL_HASH"
proof -
  have r: "0 \<le> rankMask rs" "rankMask rs < 2 ^ 15"
    using rankMask_range [OF assms(2)] by simp_all
  have l: "lowestBit (rankMask rs) = 2 ^ Min (set rs)"
    using lowestBit_int [OF r] by (simp only: rankMask_lowbit [OF assms(1)])
  show ?thesis
    unfolding isStraight_def l rankMask_div_lowbit [OF assms(1)] by simp
qed



section \<open>Comparing straights\<close>

lemma compareHands_parsed:
  assumes "parseHandFromString handA = (ranksA, suitsA)"
    and "parseHandFromString handB = (ranksB, suitsB)"
    and "rankPokerHand ranksA suitsA = Inr a"
    and "rankPokerHand ranksB suitsB = Inr b"
  shows "compareHands handA handB = compareAnalyses a b"
  by (simp add: compareHands_def assms)

lemma valid_btRanks:
  assumes "validHand cs" and "rankPokerHand (ranksOf cs) (suitsOf cs) = Inr a"
  shows "btRanks a = rankMask (map fst cs)"
proof -
  have "countDuplicatesBitwise (ranksOf cs) = Some (accOf (map fst cs))"
    by (rule valid_cdb [OF assms(1)])
  then obtain a' where "rankPokerHand (ranksOf cs) (suitsOf cs) = Inr a'"
    and "btRanks a' = countRanksBitwise (ranksOf cs)"
    using rankPokerHand_signature [OF _ valid_signature [OF assms(1)]] by blast
  then show ?thesis using assms(2) by (simp add: valid_crb [OF assms(1)])
qed

lemma valid_btRanks_wheel:
  assumes "validHand cs" and "rankPokerHand (ranksOf cs) (suitsOf cs) = Inr a"
  shows "btRanks a = WHEEL_HASH \<longleftrightarrow> wheelRanks (map fst cs)"
  by (simp only: valid_btRanks [OF assms] rankMask_wheel)

text \<open>
  C7. When two valid hands are both straights or both straight flushes, a wheel (ranks
  A, 2, 3, 4, 5, rank signature \<open>0x403C\<close>) ties another wheel and loses to every hand
  that is not a wheel: \<open>compareHands\<close> returns 0, or \<open>-1\<close> when the first hand is the
  wheel, or 1 when the second hand is. For the wheel \<open>2s As 4s 3s 5d\<close> against the six-high
  straight \<open>4s 5c 7d 6s 3s\<close> it returns \<open>-1\<close>: the second hand is the stronger one.
\<close>

theorem C7_wheel_comparison:
  assumes "parseHandFromString handA = (ranksOf csA, suitsOf csA)" and "validHand csA"
    and "parseHandFromString handB = (ranksOf csB, suitsOf csB)" and "validHand csB"
    and "rankPokerHand (ranksOf csA) (suitsOf csA) = Inr a"
    and "rankPokerHand (ranksOf csB) (suitsOf csB) = Inr b"
    and "handRank a = handRank b"
    and "handRank a = straight \<or> handRank a = straightFlush"
  shows "(wheelRanks (map fst csA) \<longleftrightarrow> btRanks a = 0x403c)
         \<and> (wheelRanks (map fst csB) \<longleftrightarrow> btRanks b = 0x403c)
         \<and> (wheelRanks (map fst csA) \<and> wheelRanks (map fst csB)
              \<longrightarrow> compareHands handA handB = Inr 0)
         \<and> (wheelRanks (map fst csA) \<and> \<not> wheelRanks (map fst csB)
              \<longrightarrow> compareHands handA handB = Inr (- 1))
         \<and> (\<not> wheelRanks (map fst csA) \<and> wheelRanks (map fst csB)
              \<longrightarrow> compareHands handA handB = Inr 1)
         \<and> compareHands ''2s As 4s 3s 5d'' ''4s 5c 7d 6s 3s'' = Inr (- 1)"
proof -
  have c: "compareHands handA handB = compareAnalyses a b"
    using assms(1,3,5,6) by (rule compareHands_parsed)
  have wa: "btRanks a = WHEEL_HASH \<longleftrightarrow> wheelRanks (map fst csA)"
    using assms(2,5) by (rule valid_btRanks_wheel)
  have wb: "btRanks b = WHEEL_HASH \<longleftrightarrow> wheelRanks (map fst csB)"
    using assms(4,6) by (rule valid_btRanks_wheel)
  have ex: "compareHands ''2s As 4s 3s 5d'' ''4s 5c 7d 6s 3s'' = Inr (- 1)"
    by code_simp
  have "handRank b = straight \<or> handRank b = straightFlush"
    using assms(7,8) by simp
  then show ?thesis
    using assms(7,8) ex unfolding c wa [symmetric] wb [symmetric]
    by (auto simp: compareAnalyses_def WHEEL_HASH_def)
qed

theorem C7_wheel_comparison_witness:
  "parseHandFromString ''2s As 4s 3s 5d''
     = (ranksOf [(2, 1), (14, 1), (4, 1), (3, 1), (5, 8)], suitsOf [(2, 1), (14, 1), (4, 1), (3, 1), (5, 8)])
   \<and> validHand [(2, 1), (14, 1), (4, 1), (3, 1), (5, 8)]
   \<and> parseHandFromString ''4s 5c 7d 6s 3s''
     = (ranksOf [(4, 1), (5, 2), (7, 8), (6, 1), (3, 1)], suitsOf [(4, 1), (5, 2), (7, 8), (6, 1), (3, 1)])
   \<and> validHand [(4, 1), (5, 2), (7, 8), (6, 1), (3, 1)]
   \<and> rankPokerHand (ranksOf [(2, 1), (14, 1), (4, 1), (3, 1), (5, 8)])
        (suitsOf [(2, 1), (14, 1), (4, 1), (3, 1), (5, 8)])
      = Inr \<lparr>handRank = straight, english = ''Straight'', btRanks = 16444, btCount = 5\<rparr>
   \<and> rankPokerHand (ranksOf [(4, 1), (5, 2), (7, 8), (6, 1), (3, 1)])
        (suitsOf [(4, 1), (5, 2), (7, 8), (6, 1), (3, 1)])
      = Inr \<lparr>handRank = straight, english = ''Straight'', btRanks = 248, btCount = 5\<rparr>
   \<and> wheelRanks (map fst ([(2, 1), (14, 1), (4, 1), (3, 1), (5, 8)] :: card list))
   \<and> \<not> wheelRanks (map fst ([(4, 1), (5, 2), (7, 8), (6, 1), (3, 1)] :: card list))
   \<and> compareHands ''2s As 4s 3s 5d'' ''4s 5c 7d 6s 3s'' = Inr (- 1)"
proof -
  have pa: "parseHandFromString ''2s As 4s 3s 5d''
     = (ranksOf [(2, 1), (14, 1), (4, 1), (3, 1), (5, 8)], suitsOf [(2, 1), (14, 1), (4, 1), (3, 1), (5, 8)])"
    by code_simp
  have va: "validHand [(2, 1), (14, 1), (4, 1), (3, 1), (5, 8)]"
    by (simp add: validHand_def validCard_def)
  have pb: "parseHandFromString ''4s 5c 7d 6s 3s''
     = (ranksOf [(4, 1), (5, 2), (7, 8), (6, 1), (3, 1)], suitsOf [(4, 1), (5, 2), (7, 8), (6, 1), (3, 1)])"
    by code_simp
  have vb: "validHand [(4, 1), (5, 2), (7, 8), (6, 1), (3, 1)]"
    by (simp add: validHand_def validCard_def)
  have ra: "rankPokerHand (ranksOf [(2, 1), (14, 1), (4, 1), (3, 1), (5, 8)])
        (suitsOf [(2, 1), (14, 1), (4, 1), (3, 1), (5, 8)])
      = Inr \<lparr>handRank = straight, english = ''Straight'', btRanks = 16444, btCount = 5\<rparr>"
    by code_simp
  have rb: "rankPokerHand (ranksOf [(4, 1), (5, 2), (7, 8), (6, 1), (3, 1)])
        (suitsOf [(4, 1), (5, 2), (7, 8), (6, 1), (3, 1)])
      = Inr \<lparr>handRank = straight, english = ''Straight'', btRanks = 248, btCount = 5\<rparr>"
    by code_simp
  have wa: "wheelRanks (map fst ([(2, 1), (14, 1), (4, 1), (3, 1), (5, 8)] :: card list))"
    by code_simp
  have wb: "\<not> wheelRanks (map fst ([(4, 1), (5, 2), (7, 8), (6, 1), (3, 1)] :: card list))"
    by code_simp
  show ?thesis
    using pa va pb vb ra rb wa wb C7_wheel_comparison [OF pa va pb vb ra rb] by simp
qed

section \<open>The comparison and the strength of hands\<close>

subsection \<open>The category of a valid hand\<close>

lemma bit_31_shift: "bit (31 * 2 ^ lo :: int) n \<longleftrightarrow> lo \<le> n \<and> n < lo + 5"
proof -
  have "(31 :: int) = mask 5" by (simp add: mask_eq_exp_minus_1)
  then have "(31 * 2 ^ lo :: int) = push_bit lo (mask 5)" by (simp add: push_bit_eq_mult)
  then show ?thesis by (auto simp: bit_push_bit_iff bit_mask_iff)
qed

lemma rankMask_run: "rankMask rs = 31 * 2 ^ lo \<longleftrightarrow> set rs = {lo..lo + 4}"
proof
  assume e: "rankMask rs = 31 * 2 ^ lo"
  show "set rs = {lo..lo + 4}"
  proof (rule set_eqI)
    fix n
    have "n \<in> set rs \<longleftrightarrow> bit (31 * 2 ^ lo :: int) n" by (simp only: bit_rankMask [symmetric] e)
    then show "n \<in> set rs \<longleftrightarrow> n \<in> {lo..lo + 4}" by (auto simp: bit_31_shift)
  qed
next
  assume "set rs = {lo..lo + 4}"
  then show "rankMask rs = 31 * 2 ^ lo"
    by (intro bit_eqI) (auto simp: bit_rankMask bit_31_shift)
qed

lemma isStraight_straightRanks:
  assumes "rs \<noteq> []" and "\<forall>r\<in>set rs. r \<le> 14"
  shows "isStraight (rankMask rs) \<longleftrightarrow> straightRanks rs"
  unfolding isStraight_rankMask [OF assms] rankMask_div_lowbit [OF assms(1)] rankMask_run
    rankMask_wheel straightRanks_def consecutiveRanks_def by (rule refl)

lemma valid_category:
  assumes "validHand cs"
  shows "\<exists>a. rankPokerHand (ranksOf cs) (suitsOf cs) = Inr a \<and> handRank a = category cs
           \<and> btRanks a = rankMask (map fst cs)"
proof -
  let ?ms = "multiplicities (map fst cs)"
  let ?v = "accOf (map fst cs)"
  have v: "countDuplicatesBitwise (ranksOf cs) = Some ?v"
    by (rule valid_cdb [OF assms])
  have ne: "map fst cs \<noteq> []" using valid_ranks(1) [OF assms] by auto
  have le: "\<forall>r\<in>set (map fst cs). r \<le> 14" using valid_ranks(2) [OF assms] by simp
  note s = isStraight_straightRanks [OF ne le]
  note f = isFlush_sameSuit [OF assms]
  note m = valid_crb [OF assms]
  have sig: "?v mod 15 =
     (if ?ms = [1, 1, 1, 1, 1] then 5 else if ?ms = [1, 1, 1, 2] then 6
      else if ?ms = [1, 2, 2] then 7 else if ?ms = [1, 1, 3] then 9
      else if ?ms = [2, 3] then 10 else 1)"
    using signature_of_shape [OF assms] by (simp only: Let_def)
  consider "?ms = [1, 1, 1, 1, 1]" | "?ms = [1, 1, 1, 2]" | "?ms = [1, 2, 2]"
    | "?ms = [1, 1, 3]" | "?ms = [2, 3]" | "?ms = [1, 4]"
    using valid_multiplicities [OF assms] by auto
  then show ?thesis
  proof cases
    case 1
    then show ?thesis
      unfolding rankPokerHand_Some [OF v] sig category_def m s f rankMask_broadway
      by (simp add: mkAnalysis_def Let_def)
  next
    case 2
    then show ?thesis
      unfolding rankPokerHand_Some [OF v] sig category_def m
      by (simp add: mkAnalysis_def Let_def)
  next
    case 3
    then show ?thesis
      unfolding rankPokerHand_Some [OF v] sig category_def m
      by (simp add: mkAnalysis_def Let_def)
  next
    case 4
    then show ?thesis
      unfolding rankPokerHand_Some [OF v] sig category_def m
      by (simp add: mkAnalysis_def Let_def)
  next
    case 5
    then show ?thesis
      unfolding rankPokerHand_Some [OF v] sig category_def m
      by (simp add: mkAnalysis_def Let_def)
  next
    case 6
    then show ?thesis
      unfolding rankPokerHand_Some [OF v] sig category_def m
      by (simp add: mkAnalysis_def Let_def)
  qed
qed

subsection \<open>Rank signatures and the order of ranks\<close>

text \<open>
  For ranks in strictly decreasing order the rank signature is the sum of the powers of
  two, and the greater signature belongs to the lexicographically greater list.
\<close>

lemma rankMask_Cons_add:
  assumes "x \<notin> set xs"
  shows "rankMask (x # xs) = 2 ^ x + rankMask xs"
proof -
  have "(2 :: int) ^ x + rankMask xs = 2 ^ x OR rankMask xs"
    using assms by (intro disjunctive_add) (auto simp: bit_exp_iff bit_rankMask)
  then show ?thesis by (simp add: rankMask_def)
qed

lemma rankMask_below:
  assumes "\<forall>r\<in>set xs. r < x"
  shows "0 \<le> rankMask xs \<and> rankMask xs < 2 ^ x"
proof -
  have "take_bit x (rankMask xs) = rankMask xs"
    using assms by (intro bit_eqI) (auto simp: bit_take_bit_iff bit_rankMask)
  then show ?thesis by (simp only: take_bit_int_eq_self_iff)
qed

lemma rankMask_lex:
  assumes "sorted_wrt (>) a" and "sorted_wrt (>) b" and "length a = length b"
  shows "lexLess b a \<longleftrightarrow> rankMask b < rankMask a"
  using assms(3,1,2)
proof (induction a b rule: list_induct2)
  case Nil
  show ?case by simp
next
  case (Cons x xs y ys)
  have xs: "\<forall>r\<in>set xs. r < x" and ys: "\<forall>r\<in>set ys. r < y"
    using Cons.prems by auto
  have ih: "lexLess ys xs \<longleftrightarrow> rankMask ys < rankMask xs"
    using Cons.IH Cons.prems by simp
  have ma: "rankMask (x # xs) = 2 ^ x + rankMask xs"
    using xs by (intro rankMask_Cons_add) auto
  have mb: "rankMask (y # ys) = 2 ^ y + rankMask ys"
    using ys by (intro rankMask_Cons_add) auto
  note bx = rankMask_below [OF xs]
  note by' = rankMask_below [OF ys]
  consider "y < x" | "x = y" | "x < y" by linarith
  then show ?case
  proof cases
    case 1
    then have "Suc y \<le> x" by simp
    then have "(2 :: int) ^ Suc y \<le> 2 ^ x" by (intro power_increasing) simp_all
    then have "rankMask (y # ys) < rankMask (x # xs)"
      unfolding ma mb using bx by' by simp
    then show ?thesis using 1 by simp
  next
    case 2
    then show ?thesis unfolding ma mb using ih by simp
  next
    case 3
    then have "Suc x \<le> y" by simp
    then have "(2 :: int) ^ Suc x \<le> 2 ^ y" by (intro power_increasing) simp_all
    then have "rankMask (x # xs) < rankMask (y # ys)"
      unfolding ma mb using bx by' by simp
    then show ?thesis using 3 by simp
  qed
qed

lemma sort_tagged:
  fixes rs :: "nat list"
  shows "sort (map (Pair (1::nat)) rs) = map (Pair 1) (sort rs)"
proof (rule properties_for_sort)
  show "mset (map (Pair (1::nat)) (sort rs)) = mset (map (Pair 1) rs)" by simp
  have "sorted (sort rs)" by simp
  then show "sorted (map (Pair (1::nat)) (sort rs))"
    unfolding sorted_map by (rule sorted_wrt_mono_rel [rotated]) simp
qed

lemma rank_order_distinct:
  fixes rs :: "nat list"
  assumes "distinct rs"
  shows "map snd (rev (sort (map (\<lambda>r. (count_list rs r, r)) rs))) = rev (sort rs)"
proof -
  have e: "map (\<lambda>r. (count_list rs r, r)) rs = map (Pair 1) rs"
    using assms by (intro map_cong refl) (simp add: distinct_count_1)
  show ?thesis unfolding e sort_tagged by (simp add: rev_map comp_def)
qed

lemma decreasing_rev_sort:
  fixes rs :: "nat list"
  assumes "distinct rs"
  shows "sorted_wrt (>) (rev (sort rs))"
proof -
  have "sorted_wrt (<) (sort rs)" using assms by (simp add: strict_sorted_iff)
  then show ?thesis by (simp add: sorted_wrt_rev)
qed

lemma tieBreak_plain:
  assumes "distinct (map fst cs)" and "\<not> wheelRanks (map fst cs)"
  shows "tieBreak cs = rev (sort (map fst cs))"
  unfolding tieBreak_def playRanks_def Let_def using assms
  by (simp only: if_False rank_order_distinct)

lemma tieBreak_wheel:
  assumes "length cs = 5" and "wheelRanks (map fst cs)"
  shows "tieBreak cs = [5, 4, 3, 2, 1]"
proof -
  let ?rs = "map (\<lambda>r. if r = 14 then 1 else r) (map fst cs)"
  have s: "set ?rs = {1, 2, 3, 4, 5 :: nat}"
    using assms(2) unfolding wheelRanks_def set_map by auto
  have "card (set ?rs) = length ?rs" using assms(1) unfolding s by simp
  then have d: "distinct ?rs" by (rule card_distinct)
  have "sort ?rs = [1, 2, 3, 4, 5]"
  proof (rule sorted_distinct_set_unique)
    show "sorted (sort ?rs)" by simp
    show "distinct (sort ?rs)" using d by simp
    show "sorted [1, 2, 3, 4, 5 :: nat]" by simp
    show "distinct [1, 2, 3, 4, 5 :: nat]" by simp
    show "set (sort ?rs) = set [1, 2, 3, 4, 5 :: nat]" using s by auto
  qed
  then have "rev (sort ?rs) = [5, 4, 3, 2, 1]" by simp
  then show ?thesis
    using assms(2) rank_order_distinct [OF d] by (simp add: tieBreak_def playRanks_def Let_def)
qed

lemma hd_rev_sort_run:
  fixes rs :: "nat list"
  assumes "set rs = {lo..lo + 4}"
  shows "\<exists>t. rev (sort rs) = (lo + 4) # t"
proof (cases "rev (sort rs)")
  case Nil
  then have "set (rev (sort rs)) = {}" by (simp only: list.set)
  then have "set rs = {}" by simp
  then show ?thesis using assms by simp
next
  case (Cons h t)
  have "sorted_wrt (\<lambda>x y. y \<le> x) (rev (sort rs))"
    unfolding sorted_wrt_rev by simp
  then have t: "\<forall>y\<in>set t. y \<le> h" unfolding Cons by simp
  have s: "set (h # t) = {lo..lo + 4}"
    using assms unfolding Cons [symmetric] by simp
  then have "h \<le> lo + 4" by auto
  moreover have "lo + 4 \<in> set (h # t)" unfolding s by simp
  then have "lo + 4 \<le> h" using t by auto
  ultimately show ?thesis using Cons by simp
qed

subsection \<open>The sign of the comparison\<close>

lemma lexLess_irrefl: "\<not> lexLess xs xs"
  by (induction xs) simp_all

lemma category_nodup:
  assumes "validHand cs"
    and "category cs \<in> {highCard, straight, flush, straightFlush, royalFlush}"
  shows "distinct (map fst cs)"
proof -
  have "multiplicities (map fst cs) = [1, 1, 1, 1, 1]"
    using valid_multiplicities [OF assms(1)] assms(2)
    by (auto simp: category_def Let_def split: if_splits)
  then show ?thesis
    using valid_ranks(1) [OF assms(1)] by (simp only: distinct_multiplicities)
qed

lemma category_nodup_cases:
  assumes "validHand cs" and "distinct (map fst cs)"
  shows "category cs =
     (if sameSuit cs \<and> set (map fst cs) = {10, 11, 12, 13, 14} then royalFlush
      else if sameSuit cs \<and> straightRanks (map fst cs) then straightFlush
      else if sameSuit cs then flush
      else if straightRanks (map fst cs) then straight
      else highCard)"
proof -
  have "multiplicities (map fst cs) = [1, 1, 1, 1, 1]"
    using assms(2) valid_ranks(1) [OF assms(1)] by (simp only: distinct_multiplicities)
  then show ?thesis by (simp add: category_def Let_def)
qed

lemma tieBreak_mask:
  assumes "validHand csA" and "distinct (map fst csA)" and "\<not> wheelRanks (map fst csA)"
    and "validHand csB" and "distinct (map fst csB)" and "\<not> wheelRanks (map fst csB)"
  shows "lexLess (tieBreak csB) (tieBreak csA)
         \<longleftrightarrow> rankMask (map fst csB) < rankMask (map fst csA)"
proof -
  let ?a = "rev (sort (map fst csA))" and ?b = "rev (sort (map fst csB))"
  have "length ?a = length ?b"
    using valid_ranks(1) [OF assms(1)] valid_ranks(1) [OF assms(4)] by simp
  then have "lexLess ?b ?a \<longleftrightarrow> rankMask ?b < rankMask ?a"
    by (intro rankMask_lex decreasing_rev_sort assms(2,5))
  moreover have "rankMask ?a = rankMask (map fst csA)" by (rule rankMask_set) simp
  moreover have "rankMask ?b = rankMask (map fst csB)" by (rule rankMask_set) simp
  ultimately show ?thesis
    by (simp only: tieBreak_plain [OF assms(2,3)] tieBreak_plain [OF assms(5,6)])
qed

lemma wheel_below_run:
  assumes "validHand csA" and "wheelRanks (map fst csA)"
    and "validHand csB" and "distinct (map fst csB)"
    and "straightRanks (map fst csB)" and "\<not> wheelRanks (map fst csB)"
  shows "lexLess (tieBreak csA) (tieBreak csB) \<and> \<not> lexLess (tieBreak csB) (tieBreak csA)"
proof -
  let ?lo = "Min (set (map fst csB))"
  have a: "tieBreak csA = [5, 4, 3, 2, 1]"
    using assms(1,2) by (intro tieBreak_wheel) (simp_all add: validHand_def)
  have run: "set (map fst csB) = {?lo..?lo + 4}"
    using assms(5,6) by (simp add: straightRanks_def consecutiveRanks_def)
  have "map fst csB \<noteq> []" using valid_ranks(1) [OF assms(3)] by auto
  then have "?lo \<in> set (map fst csB)" by (intro Min_in) simp_all
  then have "2 \<le> ?lo" using valid_ranks(2) [OF assms(3)] by blast
  moreover obtain t where "rev (sort (map fst csB)) = (?lo + 4) # t"
    using hd_rev_sort_run [OF run] by blast
  ultimately show ?thesis
    unfolding a tieBreak_plain [OF assms(4,6)] by simp
qed

lemma compare_nodup:
  assumes "validHand csA" and "validHand csB"
    and "rankPokerHand (ranksOf csA) (suitsOf csA) = Inr a"
    and "rankPokerHand (ranksOf csB) (suitsOf csB) = Inr b"
    and "category csA = category csB"
    and "category csA \<in> {highCard, straight, flush, straightFlush, royalFlush}"
  shows "\<exists>n. compareAnalyses a b = Inr n
           \<and> (lexLess (tieBreak csB) (tieBreak csA) \<longleftrightarrow> 0 < n)
           \<and> (lexLess (tieBreak csA) (tieBreak csB) \<longleftrightarrow> n < 0)"
proof -
  let ?ra = "map fst csA" and ?rb = "map fst csB"
  have ha: "handRank a = category csA" and ma: "btRanks a = rankMask ?ra"
    using valid_category [OF assms(1)] assms(3) by auto
  have hb: "handRank b = category csB" and mb: "btRanks b = rankMask ?rb"
    using valid_category [OF assms(2)] assms(4) by auto
  have da: "distinct ?ra" using assms(1,6) by (rule category_nodup)
  have db: "distinct ?rb" using assms(2) assms(6) unfolding assms(5) by (rule category_nodup)
  note ca = category_nodup_cases [OF assms(1) da]
  note cb = category_nodup_cases [OF assms(2) db]
  have wheel_straight: "\<And>rs. wheelRanks rs \<Longrightarrow> straightRanks rs"
    by (simp add: straightRanks_def)
  have wheel_not_broadway: "\<And>rs. wheelRanks rs \<Longrightarrow> set rs \<noteq> {10, 11, 12, 13, 14}"
  proof -
    fix rs :: "nat list"
    assume "wheelRanks rs"
    then have "2 \<in> set rs" by (simp add: wheelRanks_def)
    then show "set rs \<noteq> {10, 11, 12, 13, 14}" by auto
  qed
  consider (rf) "category csA = royalFlush"
    | (plain) "category csA = flush \<or> category csA = highCard"
    | (run) "category csA = straightFlush \<or> category csA = straight"
    using assms(6) by auto
  then show ?thesis
  proof cases
    case rf
    then have sa: "set ?ra = {10, 11, 12, 13, 14}" and sb: "set ?rb = {10, 11, 12, 13, 14}"
      using ca cb assms(5) by (auto split: if_splits)
    have s: "set ?ra = set ?rb" by (simp only: sa sb)
    have na: "\<not> wheelRanks ?ra" using wheel_not_broadway [of ?ra] sa by blast
    have nb: "\<not> wheelRanks ?rb" using wheel_not_broadway [of ?rb] sb by blast
    have "sort ?ra = sort ?rb"
      using s da db by (intro sorted_distinct_set_unique) simp_all
    then have "tieBreak csA = tieBreak csB"
      by (simp only: tieBreak_plain [OF da na] tieBreak_plain [OF db nb])
    then show ?thesis
      using rf ha hb assms(5) by (simp add: compareAnalyses_def lexLess_irrefl)
  next
    case plain
    then have na: "\<not> wheelRanks ?ra" and nb: "\<not> wheelRanks ?rb"
      using ca cb assms(5) wheel_straight by (auto split: if_splits)
    have "compareAnalyses a b = Inr (rankMask ?ra - rankMask ?rb)"
      using plain ha hb assms(5) by (auto simp: compareAnalyses_def ma mb)
    then show ?thesis
      using tieBreak_mask [OF assms(1) da na assms(2) db nb]
        tieBreak_mask [OF assms(2) db nb assms(1) da na] by simp
  next
    case run
    then have sa: "straightRanks ?ra" and sb: "straightRanks ?rb"
      using ca cb assms(5) by (auto split: if_splits)
    have wa: "btRanks a = WHEEL_HASH \<longleftrightarrow> wheelRanks ?ra" by (simp only: ma rankMask_wheel)
    have wb: "btRanks b = WHEEL_HASH \<longleftrightarrow> wheelRanks ?rb" by (simp only: mb rankMask_wheel)
    have hr: "handRank a = handRank b" "handRank a = straightFlush \<or> handRank a = straight"
      using run ha hb assms(5) by simp_all
    consider (ww) "wheelRanks ?ra" "wheelRanks ?rb" | (wn) "wheelRanks ?ra" "\<not> wheelRanks ?rb"
      | (nw) "\<not> wheelRanks ?ra" "wheelRanks ?rb" | (nn) "\<not> wheelRanks ?ra" "\<not> wheelRanks ?rb"
      by blast
    then show ?thesis
    proof cases
      case ww
      have la: "length csA = 5" and lb: "length csB = 5"
        using assms(1,2) by (simp_all add: validHand_def)
      have "tieBreak csA = tieBreak csB"
        by (simp only: tieBreak_wheel [OF la ww(1)] tieBreak_wheel [OF lb ww(2)])
      moreover have "compareAnalyses a b = Inr 0"
        using hr ww wa wb by (auto simp: compareAnalyses_def)
      ultimately show ?thesis by (simp add: lexLess_irrefl)
    next
      case wn
      have "compareAnalyses a b = Inr (- 1)"
        using hr wn wa wb by (auto simp: compareAnalyses_def)
      then show ?thesis
        using wheel_below_run [OF assms(1) wn(1) assms(2) db sb wn(2)] by simp
    next
      case nw
      have "compareAnalyses a b = Inr 1"
        using hr nw wa wb by (auto simp: compareAnalyses_def)
      then show ?thesis
        using wheel_below_run [OF assms(2) nw(2) assms(1) da sa nw(1)] by simp
    next
      case nn
      have "compareAnalyses a b = Inr (rankMask ?ra - rankMask ?rb)"
        using hr nn wa wb by (auto simp: compareAnalyses_def ma mb)
      then show ?thesis
        using tieBreak_mask [OF assms(1) da nn(1) assms(2) db nn(2)]
          tieBreak_mask [OF assms(2) db nn(2) assms(1) da nn(1)] by simp
    qed
  qed
qed

lemma compare_categories:
  assumes "validHand csA" and "validHand csB"
    and "rankPokerHand (ranksOf csA) (suitsOf csA) = Inr a"
    and "rankPokerHand (ranksOf csB) (suitsOf csB) = Inr b"
    and "category csA \<noteq> category csB"
  shows "compareAnalyses a b
         = Inr (HandRank_value (category csA) - HandRank_value (category csB))"
proof -
  have "handRank a = category csA"
    using valid_category [OF assms(1)] assms(3) by auto
  moreover have "handRank b = category csB"
    using valid_category [OF assms(2)] assms(4) by auto
  ultimately show ?thesis using assms(5) by (simp add: compareAnalyses_def)
qed

text \<open>
  C1, as the code has it. For two valid hands that are not both of the same category with
  duplicated ranks (pair, two pair, trips, full house, quads), \<open>compareHands\<close> returns a
  positive number when the first hand is the stronger one, a negative number when the
  second hand is the stronger one, and zero on a tie.
\<close>

theorem C1_compareHands_sign:
  assumes "parseHandFromString handA = (ranksOf csA, suitsOf csA)" and "validHand csA"
    and "parseHandFromString handB = (ranksOf csB, suitsOf csB)" and "validHand csB"
    and "category csA \<noteq> category csB
         \<or> category csA \<in> {highCard, straight, flush, straightFlush, royalFlush}"
  shows "\<exists>n. compareHands handA handB = Inr n
           \<and> (stronger csA csB \<longleftrightarrow> 0 < n)
           \<and> (stronger csB csA \<longleftrightarrow> n < 0)
           \<and> (\<not> stronger csA csB \<and> \<not> stronger csB csA \<longleftrightarrow> n = 0)"
proof -
  obtain a where a: "rankPokerHand (ranksOf csA) (suitsOf csA) = Inr a"
    using valid_category [OF assms(2)] by blast
  obtain b where b: "rankPokerHand (ranksOf csB) (suitsOf csB) = Inr b"
    using valid_category [OF assms(4)] by blast
  have c: "compareHands handA handB = compareAnalyses a b"
    using assms(1,3) a b by (rule compareHands_parsed)
  show ?thesis
  proof (cases "category csA = category csB")
    case True
    then have "category csA \<in> {highCard, straight, flush, straightFlush, royalFlush}"
      using assms(5) by simp
    then obtain n where "compareAnalyses a b = Inr n"
      and "lexLess (tieBreak csB) (tieBreak csA) \<longleftrightarrow> 0 < n"
      and "lexLess (tieBreak csA) (tieBreak csB) \<longleftrightarrow> n < 0"
      using compare_nodup [OF assms(2,4) a b True] by blast
    then show ?thesis
      unfolding c stronger_def using True by auto
  next
    case False
    have "HandRank_value (category csA) \<noteq> HandRank_value (category csB)"
      using False by (cases "category csA"; cases "category csB") simp_all
    then show ?thesis
      unfolding c stronger_def compare_categories [OF assms(2,4) a b False] using False by auto
  qed
qed

subsection \<open>The sign convention on concrete hands\<close>

text \<open>
  C1. Four jacks are stronger than eights full of nines, and \<open>compareHands\<close> returns the
  positive number 1 for them, not a negative one.
\<close>

theorem C1_quads_against_full_house:
  "parseHandFromString ''Jh Jc Jd Js 2h''
     = (ranksOf [(11, 4), (11, 2), (11, 8), (11, 1), (2, 4)],
        suitsOf [(11, 4), (11, 2), (11, 8), (11, 1), (2, 4)])
   \<and> validHand [(11, 4), (11, 2), (11, 8), (11, 1), (2, 4)]
   \<and> parseHandFromString ''8h 8c 8d 9s 9h''
     = (ranksOf [(8, 4), (8, 2), (8, 8), (9, 1), (9, 4)],
        suitsOf [(8, 4), (8, 2), (8, 8), (9, 1), (9, 4)])
   \<and> validHand [(8, 4), (8, 2), (8, 8), (9, 1), (9, 4)]
   \<and> stronger [(11, 4), (11, 2), (11, 8), (11, 1), (2, 4)] [(8, 4), (8, 2), (8, 8), (9, 1), (9, 4)]
   \<and> compareHands ''Jh Jc Jd Js 2h'' ''8h 8c 8d 9s 9h'' = Inr 1"
  by code_simp

theorem C1_compareHands_sign_witness:
  "parseHandFromString ''Jh Jc Jd Js 2h''
     = (ranksOf [(11, 4), (11, 2), (11, 8), (11, 1), (2, 4)],
        suitsOf [(11, 4), (11, 2), (11, 8), (11, 1), (2, 4)])
   \<and> validHand [(11, 4), (11, 2), (11, 8), (11, 1), (2, 4)]
   \<and> parseHandFromString ''8h 8c 8d 9s 9h''
     = (ranksOf [(8, 4), (8, 2), (8, 8), (9, 1), (9, 4)],
        suitsOf [(8, 4), (8, 2), (8, 8), (9, 1), (9, 4)])
   \<and> validHand [(8, 4), (8, 2), (8, 8), (9, 1), (9, 4)]
   \<and> category [(11, 4), (11, 2), (11, 8), (11, 1), (2, 4)]
       \<noteq> category [(8, 4), (8, 2), (8, 8), (9, 1), (9, 4)]
   \<and> (\<exists>n. compareHands ''Jh Jc Jd Js 2h'' ''8h 8c 8d 9s 9h'' = Inr n
         \<and> (stronger [(11, 4), (11, 2), (11, 8), (11, 1), (2, 4)]
               [(8, 4), (8, 2), (8, 8), (9, 1), (9, 4)] \<longleftrightarrow> 0 < n)
         \<and> (stronger [(8, 4), (8, 2), (8, 8), (9, 1), (9, 4)]
               [(11, 4), (11, 2), (11, 8), (11, 1), (2, 4)] \<longleftrightarrow> n < 0))"
proof -
  have pa: "parseHandFromString ''Jh Jc Jd Js 2h''
     = (ranksOf [(11, 4), (11, 2), (11, 8), (11, 1), (2, 4)],
        suitsOf [(11, 4), (11, 2), (11, 8), (11, 1), (2, 4)])"
    by code_simp
  have va: "validHand [(11, 4), (11, 2), (11, 8), (11, 1), (2, 4)]"
    by (simp add: validHand_def validCard_def)
  have pb: "parseHandFromString ''8h 8c 8d 9s 9h''
     = (ranksOf [(8, 4), (8, 2), (8, 8), (9, 1), (9, 4)],
        suitsOf [(8, 4), (8, 2), (8, 8), (9, 1), (9, 4)])"
    by code_simp
  have vb: "validHand [(8, 4), (8, 2), (8, 8), (9, 1), (9, 4)]"
    by (simp add: validHand_def validCard_def)
  have c: "category [(11, 4), (11, 2), (11, 8), (11, 1), (2, 4)]
       \<noteq> category [(8, 4), (8, 2), (8, 8), (9, 1), (9, 4)]"
    by code_simp
  then have h: "category [(11, 4), (11, 2), (11, 8), (11, 1), (2, 4)]
       \<noteq> category [(8, 4), (8, 2), (8, 8), (9, 1), (9, 4)]
     \<or> category [(11, 4), (11, 2), (11, 8), (11, 1), (2, 4)]
       \<in> {highCard, straight, flush, straightFlush, royalFlush}"
    by (rule disjI1)
  show ?thesis
    using pa va pb vb c C1_compareHands_sign [OF pa va pb vb h] by blast
qed

text \<open>
  Within a category with duplicated ranks the analyzers receive the accumulator modulo 15,
  which is the same for every hand of the category: a pair of sevens is stronger than a
  pair of sixes, and the comparison returns 0.
\<close>

lemma pairs_compare_equal:
  "stronger [(7, 1), (7, 8), (4, 1), (3, 8), (2, 8)] [(6, 1), (6, 8), (14, 1), (13, 8), (11, 8)]
   \<and> compareHands ''6s 6d As Kd Jd'' ''7s 7d 4s 3d 2d'' = Inr 0"
  by code_simp

section \<open>The tests of the repository\<close>

text \<open>
  The expectations of the test suite of the repository, evaluated on the model: the rank
  signatures and accumulators as printed, the parsed ranks and suits, and the
  classification of the twelve sample hands.
\<close>

lemma test_countRanksBitwise:
  "displayIntAs16Bit (countRanksBitwise (map Some [14, 13, 12, 11, 10])) = ''0111 1100 0000 0000''"
  "displayIntAs16Bit (countRanksBitwise (map Some [14, 2, 3, 4, 5])) = ''0100 0000 0011 1100''"
  "displayIntAs16Bit (countRanksBitwise (map Some [8, 8, 11, 9, 9])) = ''0000 1011 0000 0000''"
  by code_simp+

lemma test_countDuplicatesBitwise:
  "map_option displayFloatAs64Bit (countDuplicatesBitwise (map Some [14, 13, 12, 11, 10]))
   = Some ''0000 0001 0001 0001 0001 0001 0000 0000 0000 0000 0000 0000 0000 0000 0000 0000''"
  "map_option displayFloatAs64Bit (countDuplicatesBitwise (map Some [8, 8, 11, 9, 9]))
   = Some ''0000 0000 0000 0000 0001 0000 0011 0011 0000 0000 0000 0000 0000 0000 0000 0000''"
  by code_simp+

lemma test_parseHandFromString:
  "parseHandFromString ''As Ks Qs Js Td''
   = (map Some [14, 13, 12, 11, 10], map Some [1, 1, 1, 1, 8])"
  "parseHandFromString ''2s As 4s 3s 5d''
   = (map Some [2, 14, 4, 3, 5], map Some [1, 1, 1, 1, 8])"
  "parseHandFromString ''8s 8d Jc 9s 9d''
   = (map Some [8, 8, 11, 9, 9], map Some [1, 8, 2, 1, 8])"
  "parseHandFromString ''Ks Js 9s 7s 6d''
   = (map Some [13, 11, 9, 7, 6], map Some [1, 1, 1, 1, 8])"
  "parseHandFromString ''Ah Kh 9h 3h 2h''
   = (map Some [14, 13, 9, 3, 2], map Some [4, 4, 4, 4, 4])"
  by code_simp+

lemma test_rankPokerHand:
  "rankHand ''As Ks Qs Js Ts''
   = Inr \<lparr>handRank = royalFlush, english = ''Royal Flush'', btRanks = 31744, btCount = 5\<rparr>"
  "rankHand ''4s 5s 7s 6s 3s''
   = Inr \<lparr>handRank = straightFlush, english = ''Straight Flush'', btRanks = 248, btCount = 5\<rparr>"
  "rankHand ''Ah 3h 5h 4h 2h''
   = Inr \<lparr>handRank = straightFlush, english = ''Straight Flush'', btRanks = 16444, btCount = 5\<rparr>"
  "rankHand ''Jh Jc Jd Js 2h''
   = Inr \<lparr>handRank = quads, english = ''Four of a Kind'', btRanks = 2052, btCount = 1\<rparr>"
  "rankHand ''8h 8c 8d 9s 9h''
   = Inr \<lparr>handRank = fullHouse, english = ''Full House'', btRanks = 768, btCount = 10\<rparr>"
  "rankHand ''Ah Kh 9h 3h 2h''
   = Inr \<lparr>handRank = flush, english = ''Flush'', btRanks = 25100, btCount = 5\<rparr>"
  "rankHand ''4s 5c 7d 6s 3s''
   = Inr \<lparr>handRank = straight, english = ''Straight'', btRanks = 248, btCount = 5\<rparr>"
  "rankHand ''2s As 4s 3s 5d''
   = Inr \<lparr>handRank = straight, english = ''Straight'', btRanks = 16444, btCount = 5\<rparr>"
  "rankHand ''Ts Tc Td 4s Ad''
   = Inr \<lparr>handRank = trips, english = ''Three of a Kind'', btRanks = 17424, btCount = 9\<rparr>"
  "rankHand ''8s 8d Jc 9s 9d''
   = Inr \<lparr>handRank = twoPair, english = ''Two Pair'', btRanks = 2816, btCount = 7\<rparr>"
  "rankHand ''6s 6d As Kd Jd''
   = Inr \<lparr>handRank = pair, english = ''Pair'', btRanks = 26688, btCount = 6\<rparr>"
  "rankHand ''Ks Js 9s 7s 6d''
   = Inr \<lparr>handRank = highCard, english = ''High Card'', btRanks = 10944, btCount = 5\<rparr>"
  by code_simp+

end
